theory Spec2Isabelle
  imports Complex_Main "HOL-Library.AList"
begin

section \<open>Values of the program\<close>

text \<open>
  The embedding follows \<^verbatim>\<open>src/index.ts\<close>, class \<^verbatim>\<open>SearchAgent\<close>. A JavaScript
  exception is a value: every function that can throw returns an \<open>outcome\<close> together
  with the agent as it is at that moment, since the effects made before a throw stay.
  Strings are lists of characters; only the ASCII range is represented.
\<close>

datatype js_error = Error string

datatype 'a outcome = Raise js_error | Return 'a

record chat_message =
  role :: string
  content :: string

record AgentState =
  totalSearches :: nat
  lastSearchTime :: nat
  selectedRag :: string

text \<open>A value of the map \<^verbatim>\<open>allFiles\<close>, and an element of the array the method returns.\<close>

record file_ref =
  filename :: string
  file_id :: string

text \<open>
  One element of \<^verbatim>\<open>searchResults.data\<close>. The filename and the content may be missing
  (\<^verbatim>\<open>undefined\<close>). Rationals stand for the doubles of the score.
\<close>

record search_hit =
  hit_filename :: "string option"
  hit_score :: rat
  hit_content :: "string list option"
  hit_file_id :: string

record search_response =
  data :: "search_hit list option"
  search_query :: "string option"

record formatted_result =
  rank :: nat
  r_filename :: string
  r_score :: rat
  r_content :: "string option"
  r_file_id :: string

text \<open>The three object literals that \<^verbatim>\<open>performSearch\<close> returns, fields absent in one as \<open>None\<close>.\<close>

record tool_result =
  success :: bool
  found :: "bool option"
  error :: "string option"
  message :: "string option"
  count :: "nat option"
  tr_search_query :: "string option"
  results :: "formatted_result list"

text \<open>What \<^verbatim>\<open>connection.send\<close> is given, by the \<^verbatim>\<open>type\<close> field of the JSON object.\<close>

datatype event =
    MessageHistory "chat_message list"
  | SearchStart string
  | QueryRewrite string string
  | TextDeltaEvent string
  | ErrorEvent string
  | FilesEvent "file_ref list"
  | FinishEvent

text \<open>The parts of \<^verbatim>\<open>finalResult.fullStream\<close>; the switch ignores all but two kinds.\<close>

datatype stream_part = TextDelta string | StreamError string | OtherPart

text \<open>The object \<^verbatim>\<open>generateObject\<close> validates against the schema.\<close>

record decision =
  isKnowledgeEnough :: bool
  nextSearchQuery :: "string option"

text \<open>The local variables of \<^verbatim>\<open>streamWithMultiStepTools\<close> that the loop assigns.\<close>

record loop_vars =
  iteration :: nat
  currentSearchQuery :: string
  accumulatedKnowledge :: "string list"

text \<open>
  One step of the tool-calling generation: the text of the step and the queries of its
  calls of \<^verbatim>\<open>searchDocuments\<close>. A call ends in a result or in the exception of
  \<^verbatim>\<open>execute\<close>.
\<close>

record llm_step =
  step_text :: string
  toolCalls :: "string list"

datatype tool_outcome = ToolResult tool_result | ToolError js_error

text \<open>
  The calls an execution makes to the services outside the program, in order, each with
  what it returned. The program keeps no such list: the model records the calls so
  that statements can speak of them. The generation calls of the loop carry the number
  of the iteration they were made in.
\<close>

datatype call =
    RewriteCall "string outcome"
  | KnowledgeStepCall nat "llm_step outcome"
  | SearchCall string "search_response outcome"
  | EvaluateCall nat "decision outcome"
  | SynthCall "stream_part list"

text \<open>
  The services outside the program: the language model behind \<^verbatim>\<open>generateText\<close>,
  \<^verbatim>\<open>generateObject\<close> and \<^verbatim>\<open>streamText\<close>, the search service and the clock. Each
  answer may depend on what the code passes (the prompts are built from the user query
  and the variables of the loop) and on the number of calls made before, the first
  argument, so that the same prompt may be answered differently each time: every
  sequence of answers is the behaviour of some world.
\<close>

record world =
  rewriteText :: "nat \<Rightarrow> string list \<Rightarrow> string \<Rightarrow> string outcome"
  knowledgeStep :: "nat \<Rightarrow> string \<Rightarrow> loop_vars \<Rightarrow> tool_outcome list \<Rightarrow> llm_step outcome"
  evaluate :: "nat \<Rightarrow> string \<Rightarrow> loop_vars \<Rightarrow> decision outcome"
  synthesize :: "nat \<Rightarrow> string \<Rightarrow> loop_vars \<Rightarrow> stream_part list"
  autoragSearch :: "nat \<Rightarrow> string \<Rightarrow> string \<Rightarrow> search_response outcome"
  dateNow :: "nat \<Rightarrow> nat"

text \<open>
  The agent: \<^verbatim>\<open>this.messages\<close>, \<^verbatim>\<open>this.state\<close>, the stored messages, what was sent on
  the connection, the calls recorded, and the map \<^verbatim>\<open>allFiles\<close> that the closure
  \<^verbatim>\<open>performSearch\<close> writes. The map keeps insertion order and, on \<^verbatim>\<open>set\<close> of a key
  it has, the place of the key, as a JavaScript \<^verbatim>\<open>Map\<close>: an association list updated
  with \<open>AList.update\<close>.
\<close>

record agent =
  messages :: "chat_message list"
  agentState :: AgentState
  storage :: "chat_message list option"
  sent :: "event list"
  calls :: "call list"
  allFiles :: "(string \<times> file_ref) list"

section \<open>Helpers of the language\<close>

definition is_space :: "char \<Rightarrow> bool" where
  "is_space c = (c \<in> {CHR '' '', CHR 0x09, CHR 0x0A, CHR 0x0B, CHR 0x0C, CHR 0x0D})"

definition trim :: "string \<Rightarrow> string" where
  "trim s = rev (dropWhile is_space (rev (dropWhile is_space s)))"

fun join :: "string \<Rightarrow> string list \<Rightarrow> string" where
  "join sep [] = []"
| "join sep [x] = x"
| "join sep (x # y # ys) = x @ sep @ join sep (y # ys)"

text \<open>
  The test \<^verbatim>\<open>if (x)\<close> and the left side of \<^verbatim>\<open>x || y\<close> for an optional string:
  \<^verbatim>\<open>undefined\<close> and the empty string count as false.
\<close>

definition truthy :: "string option \<Rightarrow> bool" where
  "truthy x = (case x of None \<Rightarrow> False | Some v \<Rightarrow> v \<noteq> [])"

definition send :: "event \<Rightarrow> agent \<Rightarrow> agent" where
  "send e s = s\<lparr>sent := sent s @ [e]\<rparr>"

definition record_call :: "call \<Rightarrow> agent \<Rightarrow> agent" where
  "record_call c s = s\<lparr>calls := calls s @ [c]\<rparr>"

definition maxIterations :: nat where
  "maxIterations = 5"

section \<open>performSearch and the search tool\<close>

text \<open>
  Lines 228 to 234. \<^verbatim>\<open>Math.round\<close> rounds a half upwards, as \<open>round\<close> does;
  \<^verbatim>\<open>substring(0, 400)\<close> keeps the first 400 characters.
\<close>

definition formatResult :: "nat \<Rightarrow> search_hit \<Rightarrow> formatted_result" where
  "formatResult index result =
     \<lparr>rank = index + 1,
      r_filename = (if truthy (hit_filename result) then the (hit_filename result)
                    else ''Unknown''),
      r_score = of_int (round (hit_score result * 100)) / 100,
      r_content = map_option (\<lambda>cs. take 400 (join '' '' cs)) (hit_content result),
      r_file_id = hit_file_id result\<rparr>"

text \<open>Lines 236 to 244: every result whose filename passes the test is set in the map.\<close>

definition setFile :: "formatted_result \<Rightarrow> (string \<times> file_ref) list \<Rightarrow> (string \<times> file_ref) list" where
  "setFile result files =
     (if r_filename result \<noteq> []
      then AList.update (r_filename result)
             \<lparr>filename = r_filename result, file_id = r_file_id result\<rparr> files
      else files)"

definition collectFiles :: "formatted_result list \<Rightarrow> (string \<times> file_ref) list \<Rightarrow> (string \<times> file_ref) list" where
  "collectFiles formattedResults files = fold setFile formattedResults files"

definition noRagMessage :: string where
  "noRagMessage = ''No RAG instance selected. Please select a RAG from the dropdown.''"

text \<open>
  Lines 181 to 264. The check of the selected target comes before the \<^verbatim>\<open>try\<close>; the call
  of the search service and the formatting are inside it.
\<close>

definition performSearch :: "world \<Rightarrow> string \<Rightarrow> agent \<Rightarrow> tool_result outcome \<times> agent" where
  "performSearch w query s =
     (if selectedRag (agentState s) = [] then (Raise (Error noRagMessage), s)
      else
        let s1 = send (SearchStart query) s;
            s2 = s1\<lparr>agentState := (agentState s1)
                     \<lparr>totalSearches := totalSearches (agentState s1) + 1,
                      lastSearchTime := dateNow w (length (calls s1))\<rparr>\<rparr>;
            answer = autoragSearch w (length (calls s2)) (selectedRag (agentState s2)) query;
            s3 = record_call (SearchCall query answer) s2
        in case answer of
             Raise (Error msg) \<Rightarrow>
               (Return \<lparr>success = False, found = None,
                        error = Some ''Failed to search the database'', message = Some msg,
                        count = None, tr_search_query = None, results = []\<rparr>, s3)
           | Return searchResults \<Rightarrow>
               (case data searchResults of
                  None \<Rightarrow>
                    (Return \<lparr>success = True, found = Some False, error = None,
                             message = Some ''No relevant documents found for this query.'',
                             count = Some 0, tr_search_query = None, results = []\<rparr>, s3)
                | Some [] \<Rightarrow>
                    (Return \<lparr>success = True, found = Some False, error = None,
                             message = Some ''No relevant documents found for this query.'',
                             count = Some 0, tr_search_query = None, results = []\<rparr>, s3)
                | Some (d # ds) \<Rightarrow>
                    let formattedResults =
                          map (\<lambda>(index, result). formatResult index result) (enumerate 0 (d # ds));
                        s4 = s3\<lparr>allFiles := collectFiles formattedResults (allFiles s3)\<rparr>
                    in (Return \<lparr>success = True, found = Some True, error = None, message = None,
                                count = Some (length formattedResults),
                                tr_search_query =
                                  Some (if truthy (search_query searchResults)
                                        then the (search_query searchResults) else query),
                                results = formattedResults\<rparr>, s4)))"

text \<open>Lines 267 to 275: \<^verbatim>\<open>execute\<close> of the tool \<^verbatim>\<open>searchDocuments\<close>.\<close>

definition searchTool :: "world \<Rightarrow> string \<Rightarrow> agent \<Rightarrow> tool_result outcome \<times> agent" where
  "searchTool w query s = performSearch w query s"

section \<open>The tool-calling generation session\<close>

text \<open>
  \<^verbatim>\<open>generateText\<close> with \<^verbatim>\<open>tools\<close> and \<^verbatim>\<open>stopWhen: stepCountIs(5)\<close> belongs to the
  \<^verbatim>\<open>ai\<close> package, which is not part of the repository. It is modelled by its contract:
  a step asks the model, runs the tool calls of the step one after the other through
  \<^verbatim>\<open>execute\<close>, and a further step follows while the step made tool calls and fewer
  than five steps are done; the text returned is the text of the last step. The model
  sees the outcomes of the tool calls made so far. The session catches an exception of
  \<^verbatim>\<open>execute\<close> and hands it to the model as the outcome of the call, a tool error, as
  it hands a result: \<^verbatim>\<open>generateText\<close> does not throw it on to its caller.
\<close>

fun executeTools :: "world \<Rightarrow> string list \<Rightarrow> agent \<Rightarrow> tool_outcome list outcome \<times> agent" where
  "executeTools w [] s = (Return [], s)"
| "executeTools w (query # queries) s =
     (case searchTool w query s of
        (Raise e, s1) \<Rightarrow>
          (case executeTools w queries s1 of
             (Raise e', s2) \<Rightarrow> (Raise e', s2)
           | (Return outs, s2) \<Rightarrow> (Return (ToolError e # outs), s2))
      | (Return r, s1) \<Rightarrow>
          (case executeTools w queries s1 of
             (Raise e', s2) \<Rightarrow> (Raise e', s2)
           | (Return outs, s2) \<Rightarrow> (Return (ToolResult r # outs), s2)))"

function generateText_steps ::
  "world \<Rightarrow> string \<Rightarrow> loop_vars \<Rightarrow> nat \<Rightarrow> tool_outcome list \<Rightarrow> agent \<Rightarrow> string outcome \<times> agent" where
  "generateText_steps w userQuery l stepCount outs s =
     (let answer = knowledgeStep w (length (calls s)) userQuery l outs;
          s1 = record_call (KnowledgeStepCall (iteration l) answer) s
      in case answer of
           Raise e \<Rightarrow> (Raise e, s1)
         | Return step \<Rightarrow>
             (case executeTools w (toolCalls step) s1 of
                (Raise e, s2) \<Rightarrow> (Raise e, s2)
              | (Return newOuts, s2) \<Rightarrow>
                  if toolCalls step \<noteq> [] \<and> stepCount + 1 < 5
                  then generateText_steps w userQuery l (stepCount + 1) (outs @ newOuts) s2
                  else (Return (step_text step), s2)))"
  by pat_completeness auto
termination
  by (relation "measure (\<lambda>(w, userQuery, l, stepCount, outs, s). 5 - stepCount)") auto

declare generateText_steps.simps [simp del]

definition generateText_knowledge :: "world \<Rightarrow> string \<Rightarrow> loop_vars \<Rightarrow> agent \<Rightarrow> string outcome \<times> agent" where
  "generateText_knowledge w userQuery l s = generateText_steps w userQuery l 0 [] s"

text \<open>\<^verbatim>\<open>generateObject\<close> returns an object of the schema or throws.\<close>

definition generateObject_decision :: "world \<Rightarrow> string \<Rightarrow> loop_vars \<Rightarrow> agent \<Rightarrow> decision outcome \<times> agent" where
  "generateObject_decision w userQuery l s =
     (let answer = evaluate w (length (calls s)) userQuery l
      in (answer, record_call (EvaluateCall (iteration l) answer) s))"

section \<open>streamWithMultiStepTools\<close>

definition previousUserMessages :: "chat_message list \<Rightarrow> string list" where
  "previousUserMessages ms = map content (filter (\<lambda>msg. role msg = ''user'') (butlast ms))"

text \<open>Lines 135 to 176: the query the loop starts with.\<close>

definition rewriteQuery :: "world \<Rightarrow> string \<Rightarrow> agent \<Rightarrow> string \<times> agent" where
  "rewriteQuery w userQuery s =
     (let previous = previousUserMessages (messages s) in
      if length previous > 0 then
        let answer = rewriteText w (length (calls s)) previous userQuery;
            s1 = record_call (RewriteCall answer) s
        in case answer of
             Raise e \<Rightarrow> (userQuery, s1)
           | Return rewritten \<Rightarrow>
               (trim rewritten, send (QueryRewrite userQuery (trim rewritten)) s1)
      else (userQuery, s))"

text \<open>Lines 278 to 360: the loop \<^verbatim>\<open>while (true)\<close>, one iteration per call.\<close>

function agentic_loop :: "world \<Rightarrow> string \<Rightarrow> loop_vars \<Rightarrow> agent \<Rightarrow> loop_vars outcome \<times> agent" where
  "agentic_loop w userQuery l s =
     (let l1 = l\<lparr>iteration := iteration l + 1\<rparr> in
      case generateText_knowledge w userQuery l1 s of
        (Raise e, s1) \<Rightarrow> (Raise e, s1)
      | (Return newKnowledge, s1) \<Rightarrow>
          if trim newKnowledge \<noteq> [] then
            let l2 = l1\<lparr>accumulatedKnowledge := accumulatedKnowledge l1 @ [newKnowledge]\<rparr> in
            case generateObject_decision w userQuery l2 s1 of
              (Raise e, s2) \<Rightarrow> (Raise e, s2)
            | (Return d, s2) \<Rightarrow>
                if isKnowledgeEnough d \<or> iteration l2 \<ge> maxIterations then (Return l2, s2)
                else if truthy (nextSearchQuery d)
                then agentic_loop w userQuery
                       (l2\<lparr>currentSearchQuery := the (nextSearchQuery d)\<rparr>) s2
                else (Return l2, s2)
          else (Return l1, s1))"
  by pat_completeness auto
termination
  by (relation "measure (\<lambda>(w, userQuery, l, s). maxIterations - iteration l)") auto

declare agentic_loop.simps [simp del]

text \<open>Lines 384 to 403: the parts of the stream, in order.\<close>

fun consumeStream :: "stream_part list \<Rightarrow> string \<Rightarrow> agent \<Rightarrow> string \<times> agent" where
  "consumeStream [] completeResponse s = (completeResponse, s)"
| "consumeStream (TextDelta t # parts) completeResponse s =
     consumeStream parts (completeResponse @ t) (send (TextDeltaEvent t) s)"
| "consumeStream (StreamError e # parts) completeResponse s =
     consumeStream parts completeResponse (send (ErrorEvent e) s)"
| "consumeStream (OtherPart # parts) completeResponse s =
     consumeStream parts completeResponse s"

text \<open>Lines 362 to 412: the final answer and the new assistant message.\<close>

definition finalAnswer :: "world \<Rightarrow> string \<Rightarrow> loop_vars \<Rightarrow> agent \<Rightarrow> agent" where
  "finalAnswer w userQuery l s =
     (let parts = synthesize w (length (calls s)) userQuery l;
          s1 = record_call (SynthCall parts) s
      in case consumeStream parts [] s1 of
           (completeResponse, s2) \<Rightarrow>
             if trim completeResponse \<noteq> []
             then s2\<lparr>messages := messages s2 @ [\<lparr>role = ''assistant'', content = completeResponse\<rparr>]\<rparr>
             else s2)"

text \<open>
  The whole method. Reading \<^verbatim>\<open>this.messages[this.messages.length - 1].content\<close> throws
  a TypeError when there is no message; its message text is abbreviated. The map
  \<^verbatim>\<open>allFiles\<close> is new in every call.
\<close>

definition streamWithMultiStepTools :: "world \<Rightarrow> agent \<Rightarrow> file_ref list outcome \<times> agent" where
  "streamWithMultiStepTools w s =
     (let s0 = s\<lparr>allFiles := []\<rparr> in
      if messages s0 = [] then (Raise (Error ''TypeError''), s0)
      else
        let userQuery = content (last (messages s0)) in
        case rewriteQuery w userQuery s0 of
          (currentQuery, s1) \<Rightarrow>
            (case agentic_loop w userQuery
                    \<lparr>iteration = 0, currentSearchQuery = currentQuery, accumulatedKnowledge = []\<rparr> s1 of
               (Raise e, s2) \<Rightarrow> (Raise e, s2)
             | (Return l, s2) \<Rightarrow>
                 let s3 = finalAnswer w userQuery l s2
                 in (Return (map snd (allFiles s3)), s3)))"

section \<open>The message handler\<close>

definition persistMessages :: "agent \<Rightarrow> agent" where
  "persistMessages s = s\<lparr>storage := Some (messages s)\<rparr>"

text \<open>Lines 105 to 123.\<close>

definition processAndStreamResponse :: "world \<Rightarrow> agent \<Rightarrow> unit outcome \<times> agent" where
  "processAndStreamResponse w s =
     (case streamWithMultiStepTools w s of
        (Raise e, s1) \<Rightarrow> (Raise e, s1)
      | (Return usedFiles, s1) \<Rightarrow>
          let s2 = persistMessages s1;
              s3 = (if length usedFiles > 0 then send (FilesEvent usedFiles) s2 else s2)
          in (Return (), send FinishEvent s3))"

text \<open>The parsed JSON of a message from the client; a field that is missing is \<open>None\<close>.\<close>

record incoming =
  in_selectedRag :: "string option"
  in_messages :: "chat_message list option"

text \<open>Lines 71 to 93: the selected target, the stored history, the new messages.\<close>

definition acceptMessages :: "chat_message list \<Rightarrow> agent \<Rightarrow> agent" where
  "acceptMessages ms s1 =
     (let s2 = (case storage s1 of None \<Rightarrow> s1 | Some stored \<Rightarrow> s1\<lparr>messages := stored\<rparr>);
          s3 = s2\<lparr>messages := messages s2 @ ms\<rparr>
      in persistMessages s3)"

text \<open>
  Lines 64 to 103, for a message that is a string and parses; every exception of the
  processing is caught and sent to the client as an error event.
\<close>

definition onMessage :: "world \<Rightarrow> incoming \<Rightarrow> agent \<Rightarrow> agent" where
  "onMessage w data_in s =
     (let s1 = (if truthy (in_selectedRag data_in)
                then s\<lparr>agentState := (agentState s)\<lparr>selectedRag := the (in_selectedRag data_in)\<rparr>\<rparr>
                else s)
      in case in_messages data_in of
           None \<Rightarrow> s1
         | Some ms \<Rightarrow>
             (case processAndStreamResponse w (acceptMessages ms s1) of
                (Raise (Error msg), s5) \<Rightarrow> send (ErrorEvent msg) s5
              | (Return u, s5) \<Rightarrow> s5))"

section \<open>Notions used in the statements\<close>

subsection \<open>The file map\<close>

text \<open>The keys of the map are distinct, and every entry is stored under its own filename.\<close>

definition files_ok :: "(string \<times> file_ref) list \<Rightarrow> bool" where
  "files_ok files = (distinct (map fst files) \<and> (\<forall>(k, v) \<in> set files. filename v = k))"

text \<open>A hit whose filename is missing or empty: the left side of \<^verbatim>\<open>result.filename || 'Unknown'\<close> fails.\<close>

definition nameless :: "search_hit \<Rightarrow> bool" where
  "nameless h = (\<not> truthy (hit_filename h))"

subsection \<open>The calls of an execution\<close>

text \<open>The calls recorded between two states of the agent.\<close>

definition new_calls :: "agent \<Rightarrow> agent \<Rightarrow> call list" where
  "new_calls s s' = drop (length (calls s)) (calls s')"

text \<open>From \<open>s\<close> to \<open>s'\<close> calls were only added, each of them satisfying \<open>P\<close>.\<close>

definition extends :: "(call \<Rightarrow> bool) \<Rightarrow> agent \<Rightarrow> agent \<Rightarrow> bool" where
  "extends P s s' = (\<exists>cs. calls s' = calls s @ cs \<and> (\<forall>c \<in> set cs. P c))"

definition is_search_call :: "call \<Rightarrow> bool" where
  "is_search_call c = (case c of SearchCall q a \<Rightarrow> True | _ \<Rightarrow> False)"

text \<open>The calls of the extraction session of iteration \<open>i\<close>: steps of that iteration and searches.\<close>

definition session_call :: "nat \<Rightarrow> call \<Rightarrow> bool" where
  "session_call i c =
     (case c of KnowledgeStepCall j a \<Rightarrow> j = i | SearchCall q a \<Rightarrow> True | _ \<Rightarrow> False)"

text \<open>
  The calls of the loop: searches, and generation calls made in an iteration after \<open>lo\<close>
  and up to \<open>hi\<close>.
\<close>

definition within_iterations :: "nat \<Rightarrow> nat \<Rightarrow> call \<Rightarrow> bool" where
  "within_iterations lo hi c =
     (case c of
        KnowledgeStepCall j a \<Rightarrow> lo < j \<and> j \<le> hi
      | EvaluateCall j a \<Rightarrow> lo < j \<and> j \<le> hi
      | SearchCall q a \<Rightarrow> True
      | _ \<Rightarrow> False)"

text \<open>
  In iteration \<open>j\<close> the evaluator returned a decision that is not sufficient and names a
  next query, as the loop tests it.
\<close>

definition asks_for_more :: "call list \<Rightarrow> nat \<Rightarrow> bool" where
  "asks_for_more cs j =
     (\<exists>c \<in> set cs. case c of
        EvaluateCall k (Return d) \<Rightarrow> k = j \<and> \<not> isKnowledgeEnough d \<and> truthy (nextSearchQuery d)
      | _ \<Rightarrow> False)"

text \<open>The evaluator did so in every iteration that was begun.\<close>

definition never_sufficient :: "call list \<Rightarrow> bool" where
  "never_sufficient cs =
     (\<forall>c \<in> set cs. case c of KnowledgeStepCall j a \<Rightarrow> asks_for_more cs j | _ \<Rightarrow> True)"

text \<open>
  The phases of an execution, as its calls show them: the generation calls of the
  extraction session of an iteration, the evaluation of an iteration, the synthesis.
  Searches and the rewriting are no phase. In \<open>phases\<close> the steps of one session, which
  follow one another with only searches between them, count once; \<open>evaluated_in\<close>
  lists the iteration of every evaluation call, one entry per call.
\<close>

datatype phase = Extraction nat | Evaluation nat | Synthesis

definition phase_of :: "call \<Rightarrow> phase list" where
  "phase_of c =
     (case c of
        KnowledgeStepCall j a \<Rightarrow> [Extraction j]
      | EvaluateCall j a \<Rightarrow> [Evaluation j]
      | SynthCall parts \<Rightarrow> [Synthesis]
      | _ \<Rightarrow> [])"

definition phases :: "call list \<Rightarrow> phase list" where
  "phases cs = remdups_adj (concat (map phase_of cs))"

definition evaluated_in :: "call list \<Rightarrow> nat list" where
  "evaluated_in cs = concat (map (\<lambda>c. case c of EvaluateCall j a \<Rightarrow> [j] | _ \<Rightarrow> []) cs)"

text \<open>The iterations after \<open>lo\<close> up to \<open>hi\<close>, each an extraction followed by its evaluation.\<close>

definition full_iterations :: "nat \<Rightarrow> nat \<Rightarrow> phase list" where
  "full_iterations lo hi = concat (map (\<lambda>j. [Extraction j, Evaluation j]) [lo + 1 ..< hi + 1])"

text \<open>A search that returned a nameless hit.\<close>

definition returns_nameless :: "call \<Rightarrow> bool" where
  "returns_nameless c =
     (case c of
        SearchCall q (Return resp) \<Rightarrow>
          (case data resp of None \<Rightarrow> False | Some hits \<Rightarrow> \<exists>h \<in> set hits. nameless h)
      | _ \<Rightarrow> False)"

text \<open>
  From \<open>s\<close> to \<open>s'\<close> calls were only added and keys of the file map only gained, and the
  key \<open>Unknown\<close> is there when one of the added searches returned a nameless hit.
\<close>

definition registers :: "agent \<Rightarrow> agent \<Rightarrow> bool" where
  "registers s s' =
     (\<exists>cs. calls s' = calls s @ cs \<and> fst ` set (allFiles s) \<subseteq> fst ` set (allFiles s') \<and>
        ((\<exists>c \<in> set cs. returns_nameless c) \<longrightarrow> ''Unknown'' \<in> fst ` set (allFiles s')))"

text \<open>The generations of the model never throw.\<close>

definition models_answer :: "world \<Rightarrow> bool" where
  "models_answer w =
     ((\<forall>t u l outs. \<exists>step. knowledgeStep w t u l outs = Return step) \<and>
      (\<forall>t u l. \<exists>d. evaluate w t u l = Return d))"

text \<open>
  Services that never let the loop stop by itself: every step of the model returns and
  carries text that is not blank, and the evaluator always returns a decision that is not
  sufficient and names a next query.
\<close>

definition always_more :: "world \<Rightarrow> bool" where
  "always_more w =
     ((\<forall>t u l outs. \<exists>step. knowledgeStep w t u l outs = Return step \<and> trim (step_text step) \<noteq> []) \<and>
      (\<forall>t u l. \<exists>d. evaluate w t u l = Return d \<and> \<not> isKnowledgeEnough d \<and> truthy (nextSearchQuery d)))"

subsection \<open>The stream of the synthesis\<close>

text \<open>The text of the fragments of a stream, and the events its parts are sent as.\<close>

fun stream_text :: "stream_part list \<Rightarrow> string" where
  "stream_text [] = []"
| "stream_text (TextDelta t # parts) = t @ stream_text parts"
| "stream_text (p # parts) = stream_text parts"

fun stream_events :: "stream_part list \<Rightarrow> event list" where
  "stream_events [] = []"
| "stream_events (TextDelta t # parts) = TextDeltaEvent t # stream_events parts"
| "stream_events (StreamError e # parts) = ErrorEvent e # stream_events parts"
| "stream_events (OtherPart # parts) = stream_events parts"

subsection \<open>Sessions and services of the examples\<close>

text \<open>
  A session with one user message and a search target; one with a history; one of a
  client that has selected no target and sends its first message.
\<close>

definition demo_agent :: agent where
  "demo_agent =
     \<lparr>messages = [\<lparr>role = ''user'', content = ''What is policy X?''\<rparr>],
      agentState = \<lparr>totalSearches = 0, lastSearchTime = 0, selectedRag = ''docs''\<rparr>,
      storage = None, sent = [], calls = [], allFiles = []\<rparr>"

definition history_agent :: agent where
  "history_agent =
     demo_agent\<lparr>messages :=
       [\<lparr>role = ''user'', content = ''What is policy X?''\<rparr>,
        \<lparr>role = ''assistant'', content = ''Policy X is about leave.''\<rparr>,
        \<lparr>role = ''user'', content = ''and clause Y?''\<rparr>]\<rparr>"

definition fresh_agent :: agent where
  "fresh_agent =
     \<lparr>messages = [], agentState = \<lparr>totalSearches = 0, lastSearchTime = 0, selectedRag = []\<rparr>,
      storage = None, sent = [], calls = [], allFiles = []\<rparr>"

definition first_message :: incoming where
  "first_message =
     \<lparr>in_selectedRag = None,
      in_messages = Some [\<lparr>role = ''user'', content = ''What is policy X?''\<rparr>]\<rparr>"

definition start_vars :: loop_vars where
  "start_vars = \<lparr>iteration = 0, currentSearchQuery = ''policy X'', accumulatedKnowledge = []\<rparr>"


definition nameless_hits :: "search_hit list" where
  "nameless_hits =
     [\<lparr>hit_filename = None, hit_score = 1 / 2, hit_content = None, hit_file_id = ''id-7''\<rparr>,
      \<lparr>hit_filename = Some [], hit_score = 1 / 2, hit_content = None, hit_file_id = ''id-8''\<rparr>,
      \<lparr>hit_filename = Some ''b.pdf'', hit_score = 1 / 2, hit_content = Some [''x'', ''y''],
       hit_file_id = ''id-9''\<rparr>]"

text \<open>
  Services where the model searches once with the current query and then answers with
  one fact, the evaluator is satisfied at once, and the search returns the given hits.
\<close>

definition demo_world :: "search_hit list \<Rightarrow> world" where
  "demo_world hits =
     \<lparr>rewriteText = (\<lambda>t previous u. Return u),
      knowledgeStep = (\<lambda>t u l outs.
         Return \<lparr>step_text = (if outs = [] then [] else ''fact''),
                 toolCalls = (if outs = [] then [currentSearchQuery l] else [])\<rparr>),
      evaluate = (\<lambda>t u l. Return \<lparr>isKnowledgeEnough = True, nextSearchQuery = None\<rparr>),
      synthesize = (\<lambda>t u l. [TextDelta ''answer'']),
      autoragSearch = (\<lambda>t rag q. Return \<lparr>data = Some hits, search_query = None\<rparr>),
      dateNow = (\<lambda>t. t)\<rparr>"

text \<open>
  Services where the model never searches and answers with the given text, and the
  evaluator decides by the number of the iteration.
\<close>

definition loop_world :: "string \<Rightarrow> (nat \<Rightarrow> decision) \<Rightarrow> world" where
  "loop_world knowledge decide =
     \<lparr>rewriteText = (\<lambda>t previous u. Return u),
      knowledgeStep = (\<lambda>t u l outs. Return \<lparr>step_text = knowledge, toolCalls = []\<rparr>),
      evaluate = (\<lambda>t u l. Return (decide (iteration l))),
      synthesize = (\<lambda>t u l. [TextDelta ''answer'']),
      autoragSearch = (\<lambda>t rag q. Raise (Error ''no search'')),
      dateNow = (\<lambda>t. t)\<rparr>"

definition more :: "nat \<Rightarrow> decision" where
  "more i = \<lparr>isKnowledgeEnough = False, nextSearchQuery = Some ''clause Y''\<rparr>"

definition enough_at :: "nat \<Rightarrow> nat \<Rightarrow> decision" where
  "enough_at k i = \<lparr>isKnowledgeEnough = (i = k), nextSearchQuery = Some ''clause Y''\<rparr>"

definition no_next_query :: "nat \<Rightarrow> decision" where
  "no_next_query i = \<lparr>isKnowledgeEnough = False, nextSearchQuery = None\<rparr>"

text \<open>Services that fail in one place.\<close>

definition failing_rewrite :: "world \<Rightarrow> world" where
  "failing_rewrite w = w\<lparr>rewriteText := (\<lambda>t previous u. Raise (Error ''overloaded''))\<rparr>"

definition failing_search :: "world \<Rightarrow> world" where
  "failing_search w = w\<lparr>autoragSearch := (\<lambda>t rag q. Raise (Error ''timeout''))\<rparr>"

definition broken_stream :: "world \<Rightarrow> world" where
  "broken_stream w =
     w\<lparr>synthesize := (\<lambda>t u l. [TextDelta ''par'', StreamError ''boom'', TextDelta ''tial''])\<rparr>"

section \<open>Auxiliary facts\<close>

subsection \<open>The file map\<close>

lemma r_filename_formatResult: "r_filename (formatResult i h) \<noteq> []"
  by (simp add: formatResult_def truthy_def split: option.split)

lemma files_ok_setFile: "files_ok files \<Longrightarrow> files_ok (setFile r files)"
proof -
  have "(\<forall>(k, v) \<in> set files. filename v = k) \<Longrightarrow>
        (\<forall>(k, v) \<in> set (AList.update n \<lparr>filename = n, file_id = i\<rparr> files). filename v = k)" for n i
    by (induction files) auto
  then show "files_ok files \<Longrightarrow> files_ok (setFile r files)"
    by (simp add: files_ok_def setFile_def distinct_update)
qed

lemma files_ok_collectFiles: "files_ok files \<Longrightarrow> files_ok (collectFiles rs files)"
  unfolding collectFiles_def
  by (induction rs arbitrary: files) (simp_all add: files_ok_setFile)

lemma keys_setFile: "fst ` set files \<subseteq> fst ` set (setFile r files)"
  by (auto simp add: setFile_def dom_update)

lemma keys_collectFiles: "fst ` set files \<subseteq> fst ` set (collectFiles rs files)"
  unfolding collectFiles_def
proof (induction rs arbitrary: files)
  case Nil
  then show ?case by simp
next
  case (Cons r rs)
  then show ?case using keys_setFile [of files r] by (simp, blast)
qed

lemma find_append_case:
  "find P (xs @ ys) = (case find P xs of None \<Rightarrow> find P ys | Some x \<Rightarrow> Some x)"
  by (induction xs) simp_all

lemma map_of_setFile:
  "r_filename r \<noteq> [] \<Longrightarrow>
   map_of (setFile r files) f =
     (if r_filename r = f then Some \<lparr>filename = f, file_id = r_file_id r\<rparr> else map_of files f)"
  by (auto simp add: setFile_def update_conv')

lemma map_of_collectFiles:
  "\<forall>r \<in> set rs. r_filename r \<noteq> [] \<Longrightarrow>
   map_of (collectFiles rs files) f =
     (case find (\<lambda>r. r_filename r = f) (rev rs) of
        None \<Rightarrow> map_of files f
      | Some r \<Rightarrow> Some \<lparr>filename = f, file_id = r_file_id r\<rparr>)"
  unfolding collectFiles_def
proof (induction rs arbitrary: files)
  case Nil
  then show ?case by simp
next
  case (Cons r rs)
  then show ?case
    by (simp add: map_of_setFile find_append_case split: option.split)
qed

subsection \<open>One search\<close>

lemmas performSearch_unfold =
  performSearch_def Let_def send_def record_call_def

lemma performSearch_files_ok:
  "performSearch w q s = (r, s') \<Longrightarrow> files_ok (allFiles s) \<longrightarrow> files_ok (allFiles s')"
  by (auto simp add: performSearch_unfold files_ok_collectFiles
      split: if_splits outcome.splits js_error.splits option.splits list.splits)

lemma key_collectFiles: "(k, v) \<in> set files \<Longrightarrow> k \<in> fst ` set (collectFiles rs files)"
  using keys_collectFiles [of files rs] by force

lemma performSearch_keys:
  "performSearch w q s = (r, s') \<Longrightarrow> fst ` set (allFiles s) \<subseteq> fst ` set (allFiles s')"
  by (auto simp add: performSearch_unfold intro: key_collectFiles
      split: if_splits outcome.splits js_error.splits option.splits list.splits)

lemma performSearch_extends:
  "performSearch w q s = (r, s') \<Longrightarrow> extends is_search_call s s'"
  by (auto simp add: performSearch_unfold extends_def is_search_call_def
      split: if_splits outcome.splits js_error.splits option.splits list.splits)

lemma performSearch_frame:
  "performSearch w q s = (r, s') \<Longrightarrow>
   selectedRag (agentState s') = selectedRag (agentState s) \<and> messages s' = messages s \<and>
   storage s' = storage s"
  by (auto simp add: performSearch_unfold
      split: if_splits outcome.splits js_error.splits option.splits list.splits)

lemma performSearch_returns:
  "selectedRag (agentState s) \<noteq> [] \<Longrightarrow> \<exists>res s'. performSearch w q s = (Return res, s')"
  by (auto simp add: performSearch_unfold
      split: if_splits outcome.splits js_error.splits option.splits list.splits)

subsection \<open>What every step of a run keeps\<close>

text \<open>
  A relation between states of the agent that is reflexive and transitive and holds across a
  search and across the recording of a call holds across the tool calls of a step, across
  an extraction session and across the loop. For the loop the relation may depend on the
  number of the iteration before.
\<close>

lemma extends_refl: "extends P s s"
  by (simp add: extends_def)

lemma extends_trans: "extends P a b \<Longrightarrow> extends P b c \<Longrightarrow> extends P a c"
  by (auto simp add: extends_def)

lemma extends_mono: "extends P a b \<Longrightarrow> (\<And>c. P c \<Longrightarrow> Q c) \<Longrightarrow> extends Q a b"
  by (auto simp add: extends_def)

lemma extends_record_call: "P c \<Longrightarrow> extends P s (record_call c s)"
  by (simp add: extends_def record_call_def)

lemma extends_new_calls: "extends P s s' \<Longrightarrow> \<forall>c \<in> set (new_calls s s'). P c"
  by (auto simp add: extends_def new_calls_def)

lemma executeTools_rel:
  assumes refl: "\<And>s. R s s"
    and trans: "\<And>a b c. R a b \<Longrightarrow> R b c \<Longrightarrow> R a c"
    and step: "\<And>q s r s'. performSearch w q s = (r, s') \<Longrightarrow> R s s'"
  shows "executeTools w qs s = (r, s') \<Longrightarrow> R s s'"
proof (induction qs arbitrary: s r s')
  case Nil
  then show ?case using refl by simp
next
  case (Cons q qs)
  obtain r1 s1 where p: "performSearch w q s = (r1, s1)"
    by (cases "performSearch w q s")
  obtain r2 s2 where e: "executeTools w qs s1 = (r2, s2)"
    by (cases "executeTools w qs s1")
  have a: "R s s1" using step p .
  have b: "R s1 s2" using Cons.IH e .
  from Cons.prems p e have "s' = s1 \<or> s' = s2"
    by (auto simp: searchTool_def split: outcome.splits if_splits)
  then show ?case using a b trans by blast
qed

lemma generateText_steps_rel:
  assumes refl: "\<And>s. R s s"
    and trans: "\<And>a b c. R a b \<Longrightarrow> R b c \<Longrightarrow> R a c"
    and step: "\<And>q s r s'. performSearch w q s = (r, s') \<Longrightarrow> R s s'"
    and ask: "\<And>a s. R s (record_call (KnowledgeStepCall (iteration l) a) s)"
  shows "generateText_steps w u l n outs s = (r, s') \<Longrightarrow> R s s'"
proof (induction "5 - n" arbitrary: n outs s r s' rule: less_induct)
  case less
  define a where "a = knowledgeStep w (length (calls s)) u l outs"
  define s1 where "s1 = record_call (KnowledgeStepCall (iteration l) a) s"
  note unfold = generateText_steps.simps [of w u l n outs s] a_def [symmetric] s1_def Let_def
  have r1: "R s s1" unfolding s1_def using ask .
  show ?case
  proof (cases a)
    case (Raise e)
    with less.prems have "s' = s1"
      by (simp add: unfold)
    then show ?thesis using r1 by simp
  next
    case (Return stp)
    obtain r2 s2 where e: "executeTools w (toolCalls stp) s1 = (r2, s2)"
      by (cases "executeTools w (toolCalls stp) s1")
    have r2: "R s1 s2"
      using executeTools_rel [of R w, OF refl trans step e] by simp
    show ?thesis
    proof (cases r2)
      case (Raise e')
      with less.prems Return e have "s' = s2"
        by (simp add: unfold)
      then show ?thesis using r1 r2 trans by blast
    next
      case (Return newOuts) note ret = this
      show ?thesis
      proof (cases "toolCalls stp \<noteq> [] \<and> n + 1 < 5")
        case True
        with less.prems \<open>a = Return stp\<close> e ret
        have "generateText_steps w u l (n + 1) (outs @ newOuts) s2 = (r, s')"
          by (simp add: unfold)
        moreover from True have "5 - (n + 1) < 5 - n" by arith
        ultimately have "R s2 s'"
          using less.hyps by blast
        then show ?thesis using r1 r2 trans by blast
      next
        case False
        with less.prems \<open>a = Return stp\<close> e ret have "s' = s2"
          by (auto simp add: unfold)
        then show ?thesis using r1 r2 trans by blast
      qed
    qed
  qed
qed

lemma generateText_knowledge_rel:
  assumes refl: "\<And>s. R s s"
    and trans: "\<And>a b c. R a b \<Longrightarrow> R b c \<Longrightarrow> R a c"
    and step: "\<And>q s r s'. performSearch w q s = (r, s') \<Longrightarrow> R s s'"
    and ask: "\<And>a s. R s (record_call (KnowledgeStepCall (iteration l) a) s)"
  shows "generateText_knowledge w u l s = (r, s') \<Longrightarrow> R s s'"
  unfolding generateText_knowledge_def
  using generateText_steps_rel [of R w l u 0 "[]" s r s', OF refl trans step ask] by simp

lemma agentic_loop_rel:
  assumes refl: "\<And>i s. R i s s"
    and trans: "\<And>i a b c. R i a b \<Longrightarrow> R i b c \<Longrightarrow> R i a c"
    and step: "\<And>i q s r s'. performSearch w q s = (r, s') \<Longrightarrow> R i s s'"
    and ask: "\<And>i a s. R i s (record_call (KnowledgeStepCall (Suc i) a) s)"
    and eval: "\<And>i a s. R i s (record_call (EvaluateCall (Suc i) a) s)"
    and mono: "\<And>i a b. Suc i < maxIterations \<Longrightarrow> R (Suc i) a b \<Longrightarrow> R i a b"
  shows "agentic_loop w u l s = (r, s') \<Longrightarrow> R (iteration l) s s'"
proof (induction "maxIterations - iteration l" arbitrary: l s r s' rule: less_induct)
  case less
  define l1 where "l1 = l\<lparr>iteration := iteration l + 1\<rparr>"
  obtain r1 s1 where g: "generateText_knowledge w u l1 s = (r1, s1)"
    by (cases "generateText_knowledge w u l1 s")
  note unfold = agentic_loop.simps [of w u l s] l1_def Let_def
  have "R (iteration l) s s1"
  proof (rule generateText_knowledge_rel [of "R (iteration l)" w l1 u s r1 s1])
    show "\<And>a s. R (iteration l) s (record_call (KnowledgeStepCall (iteration l1) a) s)"
      using ask by (simp add: l1_def)
  qed (use refl trans step g in blast)+
  then have a1: "R (iteration l) s s1" .
  show ?case
  proof (cases r1)
    case (Raise e)
    with less.prems g have "s' = s1" by (simp add: unfold)
    then show ?thesis using a1 by simp
  next
    case (Return newKnowledge) note ret1 = this
    show ?thesis
    proof (cases "trim newKnowledge = []")
      case True
      with less.prems g ret1 have "s' = s1" by (simp add: unfold)
      then show ?thesis using a1 by simp
    next
      case False
      define l2 where "l2 = l1\<lparr>accumulatedKnowledge := accumulatedKnowledge l1 @ [newKnowledge]\<rparr>"
      obtain r2 s2 where d: "generateObject_decision w u l2 s1 = (r2, s2)"
        by (cases "generateObject_decision w u l2 s1")
      have "s2 = record_call (EvaluateCall (Suc (iteration l)) r2) s1"
        using d by (auto simp: generateObject_decision_def Let_def l2_def l1_def)
      then have "R (iteration l) s1 s2" using eval by simp
      with a1 have a2: "R (iteration l) s s2" using trans by blast
      show ?thesis
      proof (cases r2)
        case (Raise e)
        with less.prems g ret1 False d have "s' = s2"
          by (simp add: unfold l2_def)
        then show ?thesis using a2 by simp
      next
        case (Return dec) note ret2 = this
        show ?thesis
        proof (cases "isKnowledgeEnough dec \<or> iteration l2 \<ge> maxIterations")
          case True
          with less.prems g ret1 False d ret2 have "s' = s2"
            by (auto simp add: unfold l2_def)
          then show ?thesis using a2 by simp
        next
          case False note cont = this
          show ?thesis
          proof (cases "truthy (nextSearchQuery dec)")
            case True
            define l3 where "l3 = l2\<lparr>currentSearchQuery := the (nextSearchQuery dec)\<rparr>"
            have it: "iteration l3 = Suc (iteration l)"
              by (simp add: l3_def l2_def l1_def)
            from less.prems g ret1 \<open>trim newKnowledge \<noteq> []\<close> d ret2 cont True
            have "agentic_loop w u l3 s2 = (r, s')"
              by (auto simp add: unfold l2_def l3_def)
            moreover from cont it have lt: "Suc (iteration l) < maxIterations"
              by (simp add: l3_def l2_def l1_def)
            ultimately have "R (iteration l3) s2 s'"
              using less.hyps [of l3 s2 r s'] it by simp
            then have "R (iteration l) s2 s'" using mono lt it by simp
            then show ?thesis using a2 trans by blast
          next
            case False
            with less.prems g ret1 \<open>trim newKnowledge \<noteq> []\<close> d ret2 cont have "s' = s2"
              by (auto simp add: unfold l2_def)
            then show ?thesis using a2 by simp
          qed
        qed
      qed
    qed
  qed
qed

subsection \<open>The run\<close>

lemma consumeStream_eq:
  "consumeStream parts acc s = (acc @ stream_text parts, s\<lparr>sent := sent s @ stream_events parts\<rparr>)"
  by (induction parts acc s rule: consumeStream.induct) (simp_all add: send_def)

lemma finalAnswer_eq:
  "finalAnswer w u l s =
     (let parts = synthesize w (length (calls s)) u l;
          s2 = s\<lparr>calls := calls s @ [SynthCall parts], sent := sent s @ stream_events parts\<rparr>
      in if trim (stream_text parts) \<noteq> []
         then s2\<lparr>messages := messages s @ [\<lparr>role = ''assistant'', content = stream_text parts\<rparr>]\<rparr>
         else s2)"
  by (simp add: finalAnswer_def consumeStream_eq record_call_def Let_def)

lemma rewriteQuery_frame:
  "rewriteQuery w u s = (q, s') \<Longrightarrow>
   allFiles s' = allFiles s \<and> messages s' = messages s \<and> agentState s' = agentState s"
  by (auto simp add: rewriteQuery_def Let_def send_def record_call_def split: if_splits outcome.splits)

lemma agentic_loop_files_ok:
  assumes "agentic_loop w u l s = (r, s')" and "files_ok (allFiles s)"
  shows "files_ok (allFiles s')"
proof -
  have "files_ok (allFiles s) \<longrightarrow> files_ok (allFiles s')"
    by (rule agentic_loop_rel
          [of "\<lambda>i a b. files_ok (allFiles a) \<longrightarrow> files_ok (allFiles b)" w u l s r s'])
       (use assms(1) performSearch_files_ok in \<open>auto simp add: record_call_def\<close>)
  then show ?thesis using assms(2) by simp
qed

lemma files_ok_filenames: "files_ok files \<Longrightarrow> distinct (map filename (map snd files))"
proof -
  assume a: "files_ok files"
  then have "map filename (map snd files) = map fst files"
    by (auto simp add: files_ok_def)
  moreover from a have "distinct (map fst files)" by (simp add: files_ok_def)
  ultimately show ?thesis by metis
qed

lemma streamWithMultiStepTools_distinct:
  assumes "streamWithMultiStepTools w s = (Return files, s')"
  shows "distinct (map filename files)"
proof -
  define s0 where "s0 = s\<lparr>allFiles := []\<rparr>"
  define u where "u = content (last (messages s0))"
  obtain q s1 where rw: "rewriteQuery w u s0 = (q, s1)"
    by (cases "rewriteQuery w u s0")
  define l0 where "l0 = \<lparr>iteration = 0, currentSearchQuery = q, accumulatedKnowledge = []\<rparr>"
  obtain r2 s2 where lp: "agentic_loop w u l0 s1 = (r2, s2)"
    by (cases "agentic_loop w u l0 s1")
  from rw have "allFiles s1 = []" using rewriteQuery_frame [OF rw] by (simp add: s0_def)
  then have ok: "files_ok (allFiles s2)"
    using agentic_loop_files_ok [OF lp] by (simp add: files_ok_def)
  from assms rw lp obtain l where "r2 = Return l"
    and f: "files = map snd (allFiles (finalAnswer w u l s2))"
    by (auto simp add: streamWithMultiStepTools_def Let_def s0_def [symmetric] u_def [symmetric]
        l0_def [symmetric] split: if_splits outcome.splits)
  have "allFiles (finalAnswer w u l s2) = allFiles s2"
    by (simp add: finalAnswer_eq Let_def)
  with f ok show ?thesis using files_ok_filenames by simp
qed

lemmas demo_eval =
  streamWithMultiStepTools_def rewriteQuery_def previousUserMessages_def
  agentic_loop.simps generateText_knowledge_def generateText_steps.simps searchTool_def
  generateObject_decision_def finalAnswer_eq trim_def is_space_def maxIterations_def
  performSearch_def demo_world_def demo_agent_def Let_def send_def
  record_call_def collectFiles_def setFile_def formatResult_def truthy_def enumerate_eq_zip

lemma performSearch_allFiles:
  "performSearch w q s = (Return res, s') \<Longrightarrow>
   allFiles s' = collectFiles (results res) (allFiles s) \<and>
   (\<forall>x \<in> set (results res). r_filename x \<noteq> [])"
  by (auto simp add: performSearch_unfold collectFiles_def r_filename_formatResult
      split: if_splits outcome.splits js_error.splits option.splits list.splits)

subsection \<open>Nameless results\<close>

lemma registers_refl: "registers s s"
  by (simp add: registers_def)

lemma registers_trans:
  assumes "registers a b" and "registers b c"
  shows "registers a c"
proof -
  from assms(1) obtain cs1 where 1: "calls b = calls a @ cs1"
    "fst ` set (allFiles a) \<subseteq> fst ` set (allFiles b)"
    "(\<exists>x \<in> set cs1. returns_nameless x) \<longrightarrow> ''Unknown'' \<in> fst ` set (allFiles b)"
    unfolding registers_def by blast
  from assms(2) obtain cs2 where 2: "calls c = calls b @ cs2"
    "fst ` set (allFiles b) \<subseteq> fst ` set (allFiles c)"
    "(\<exists>x \<in> set cs2. returns_nameless x) \<longrightarrow> ''Unknown'' \<in> fst ` set (allFiles c)"
    unfolding registers_def by blast
  have "calls c = calls a @ (cs1 @ cs2)" using 1(1) 2(1) by simp
  moreover have "fst ` set (allFiles a) \<subseteq> fst ` set (allFiles c)" using 1(2) 2(2) by blast
  moreover have "(\<exists>x \<in> set (cs1 @ cs2). returns_nameless x) \<longrightarrow> ''Unknown'' \<in> fst ` set (allFiles c)"
    using 1(3) 2(2) 2(3) by auto
  ultimately show ?thesis unfolding registers_def by blast
qed

lemma registers_record_call: "\<not> returns_nameless c \<Longrightarrow> registers s (record_call c s)"
  by (simp add: registers_def record_call_def)

lemma key_setFile_same: "r_filename r \<noteq> [] \<Longrightarrow> r_filename r \<in> fst ` set (setFile r files)"
  by (simp add: setFile_def dom_update)

lemma key_collectFiles_new:
  "r \<in> set rs \<Longrightarrow> r_filename r \<noteq> [] \<Longrightarrow> r_filename r \<in> fst ` set (collectFiles rs files)"
  unfolding collectFiles_def
proof (induction rs arbitrary: files)
  case Nil
  then show ?case by simp
next
  case (Cons a rs)
  show ?case
  proof (cases "r \<in> set rs")
    case True
    then show ?thesis using Cons by simp
  next
    case False
    with Cons.prems have "a = r" by simp
    then have "r_filename r \<in> fst ` set (setFile a files)"
      using key_setFile_same Cons.prems by simp
    then show ?thesis
      using keys_collectFiles [of "setFile a files" rs] by (auto simp add: collectFiles_def)
  qed
qed

lemma formatResult_nameless: "nameless h \<Longrightarrow> r_filename (formatResult i h) = ''Unknown''"
  by (simp add: formatResult_def nameless_def)

lemma nameless_in_formatted:
  assumes "h \<in> set hits" and "nameless h"
  shows "\<exists>r \<in> set (map (\<lambda>(i, h). formatResult i h) (enumerate n hits)). r_filename r = ''Unknown''"
proof -
  from assms(1) obtain k where k: "k < length hits" "hits ! k = h"
    by (auto simp add: in_set_conv_nth)
  then have "(n + k, h) \<in> set (enumerate n hits)"
    by (auto simp add: in_set_conv_nth nth_enumerate_eq intro!: exI [of _ k])
  then have "formatResult (n + k) h \<in> set (map (\<lambda>(i, h). formatResult i h) (enumerate n hits))"
    by force
  then show ?thesis using formatResult_nameless [OF assms(2)] by blast
qed

lemma performSearch_results:
  assumes "performSearch w q s = (Return res, s')"
    and "autoragSearch w (length (calls s)) (selectedRag (agentState s)) q = Return resp"
    and "data resp = Some hits" and "hits \<noteq> []"
  shows "results res = map (\<lambda>(i, h). formatResult i h) (enumerate 0 hits)"
  using assms by (auto simp add: performSearch_unfold split: if_splits list.splits)

lemma performSearch_unknown:
  assumes p: "performSearch w q s = (Return res, s')"
    and a: "autoragSearch w (length (calls s)) (selectedRag (agentState s)) q = Return resp"
    and d: "data resp = Some hits" and h: "h \<in> set hits" "nameless h"
  shows "''Unknown'' \<in> fst ` set (allFiles s')"
proof -
  from h have ne: "hits \<noteq> []" by auto
  from p a d ne have r: "results res = map (\<lambda>(i, h). formatResult i h) (enumerate 0 hits)"
    by (rule performSearch_results)
  from nameless_in_formatted [OF h, of 0] r obtain x where
    x: "x \<in> set (results res)" "r_filename x = ''Unknown''" by auto
  from performSearch_allFiles [OF p] have "allFiles s' = collectFiles (results res) (allFiles s)"
    by simp
  with key_collectFiles_new [OF x(1), of "allFiles s"] x(2) show ?thesis by simp
qed

lemma performSearch_registers:
  assumes p: "performSearch w q s = (r, s')"
  shows "registers s s'"
proof (cases "selectedRag (agentState s) = []")
  case True
  with p have "s' = s" by (simp add: performSearch_def)
  then show ?thesis by (simp add: registers_refl)
next
  case False
  define a where "a = autoragSearch w (length (calls s)) (selectedRag (agentState s)) q"
  from p False have c: "calls s' = calls s @ [SearchCall q a]"
    by (auto simp add: performSearch_unfold a_def
        split: if_splits outcome.splits js_error.splits option.splits list.splits)
  have "''Unknown'' \<in> fst ` set (allFiles s')" if n: "returns_nameless (SearchCall q a)"
  proof -
    from n obtain resp hits h where "a = Return resp" "data resp = Some hits" "h \<in> set hits" "nameless h"
      by (auto simp add: returns_nameless_def split: outcome.splits option.splits)
    moreover from performSearch_returns [OF False, of w q] p obtain res where "r = Return res"
      by auto
    ultimately show ?thesis using performSearch_unknown [of w q s res s' resp hits h] p
      by (simp add: a_def)
  qed
  with c performSearch_keys [OF p] show ?thesis
    by (auto simp add: registers_def)
qed

lemma streamWithMultiStepTools_Return:
  assumes "streamWithMultiStepTools w s = (Return files, s')"
  obtains q s1 l s2 where "messages s \<noteq> []"
    and "rewriteQuery w (content (last (messages s))) (s\<lparr>allFiles := []\<rparr>) = (q, s1)"
    and "agentic_loop w (content (last (messages s)))
           \<lparr>iteration = 0, currentSearchQuery = q, accumulatedKnowledge = []\<rparr> s1 = (Return l, s2)"
    and "s' = finalAnswer w (content (last (messages s))) l s2"
    and "files = map snd (allFiles s')"
proof -
  obtain q s1 where rw: "rewriteQuery w (content (last (messages s))) (s\<lparr>allFiles := []\<rparr>) = (q, s1)"
    by (cases "rewriteQuery w (content (last (messages s))) (s\<lparr>allFiles := []\<rparr>)")
  obtain r2 s2 where lp: "agentic_loop w (content (last (messages s)))
           \<lparr>iteration = 0, currentSearchQuery = q, accumulatedKnowledge = []\<rparr> s1 = (r2, s2)"
    by (cases "agentic_loop w (content (last (messages s)))
           \<lparr>iteration = 0, currentSearchQuery = q, accumulatedKnowledge = []\<rparr> s1")
  from assms rw lp have "messages s \<noteq> []"
    by (auto simp add: streamWithMultiStepTools_def Let_def split: if_splits)
  moreover from assms rw lp obtain l where "r2 = Return l"
    "s' = finalAnswer w (content (last (messages s))) l s2" "files = map snd (allFiles s')"
    by (auto simp add: streamWithMultiStepTools_def Let_def split: if_splits outcome.splits)
  ultimately show thesis using that rw lp by blast
qed

lemma rewriteQuery_registers: "rewriteQuery w u s = (q, s') \<Longrightarrow> registers s s'"
  by (auto simp add: rewriteQuery_def Let_def registers_def send_def record_call_def
      returns_nameless_def split: if_splits outcome.splits)

lemma finalAnswer_registers: "registers s (finalAnswer w u l s)"
  by (simp add: finalAnswer_eq Let_def registers_def returns_nameless_def)

lemma agentic_loop_registers:
  assumes "agentic_loop w u l s = (r, s')"
  shows "registers s s'"
  by (rule agentic_loop_rel [of "\<lambda>i. registers" w u l s r s'])
     (use assms performSearch_registers registers_refl registers_trans in
       \<open>auto simp add: registers_record_call returns_nameless_def\<close>)

lemma count_distinct:
  "distinct (map f xs) \<Longrightarrow> length (filter (\<lambda>x. f x = a) xs) = (if a \<in> f ` set xs then 1 else 0)"
proof (induction xs)
  case Nil
  then show ?case by simp
next
  case (Cons x xs)
  then show ?case by (auto simp add: image_iff)
qed

lemma streamWithMultiStepTools_registers:
  assumes run: "streamWithMultiStepTools w s = (Return files, s')"
  shows "(\<exists>c \<in> set (new_calls s s'). returns_nameless c) \<longrightarrow> ''Unknown'' \<in> filename ` set files"
proof -
  from run obtain q s1 l s2 where
    rw: "rewriteQuery w (content (last (messages s))) (s\<lparr>allFiles := []\<rparr>) = (q, s1)"
    and lp: "agentic_loop w (content (last (messages s)))
           \<lparr>iteration = 0, currentSearchQuery = q, accumulatedKnowledge = []\<rparr> s1 = (Return l, s2)"
    and fin: "s' = finalAnswer w (content (last (messages s))) l s2"
    and files: "files = map snd (allFiles s')"
    by (rule streamWithMultiStepTools_Return)
  have "registers (s\<lparr>allFiles := []\<rparr>) s'"
    using rewriteQuery_registers [OF rw] agentic_loop_registers [OF lp]
      finalAnswer_registers [of s2 w "content (last (messages s))" l] fin registers_trans
    by blast
  then obtain cs where cs: "calls s' = calls s @ cs"
    "(\<exists>c \<in> set cs. returns_nameless c) \<longrightarrow> ''Unknown'' \<in> fst ` set (allFiles s')"
    by (auto simp add: registers_def)
  from rewriteQuery_frame [OF rw] have "allFiles s1 = []" by simp
  then have "files_ok (allFiles s2)"
    using agentic_loop_files_ok [OF lp] by (simp add: files_ok_def)
  then have ok: "files_ok (allFiles s')" using fin by (simp add: finalAnswer_eq Let_def)
  then have "fst ` set (allFiles s') = filename ` set files"
    unfolding files files_ok_def by force
  moreover have "new_calls s s' = cs" using cs(1) by (simp add: new_calls_def)
  ultimately show ?thesis using cs(2) by simp
qed

subsection \<open>The calls of a session and of the loop\<close>

lemma performSearch_extends_if:
  assumes "performSearch w q s = (r, s')" and "\<And>c. is_search_call c \<Longrightarrow> P c"
  shows "extends P s s'"
  using extends_mono [OF performSearch_extends [OF assms(1)]] assms(2) by simp

lemma generateText_steps_asks:
  "generateText_steps w u l n outs s = (r, s') \<Longrightarrow>
   \<exists>a cs. calls s' = calls s @ KnowledgeStepCall (iteration l) a # cs"
proof -
  assume g: "generateText_steps w u l n outs s = (r, s')"
  define a where "a = knowledgeStep w (length (calls s)) u l outs"
  define s1 where "s1 = record_call (KnowledgeStepCall (iteration l) a) s"
  have c1: "calls s1 = calls s @ [KnowledgeStepCall (iteration l) a]"
    by (simp add: s1_def record_call_def)
  have "extends (\<lambda>c. True) s1 s'"
  proof (cases a)
    case (Raise e)
    with g have "s' = s1"
      by (simp add: generateText_steps.simps [of w u l n outs s] a_def [symmetric] s1_def Let_def)
    then show ?thesis by (simp add: extends_refl)
  next
    case (Return stp)
    obtain r2 s2 where e: "executeTools w (toolCalls stp) s1 = (r2, s2)"
      by (cases "executeTools w (toolCalls stp) s1")
    have e2: "extends (\<lambda>c. True) s1 s2"
    proof (rule executeTools_rel [of "extends (\<lambda>c. True)" w "toolCalls stp" s1 r2 s2])
      show "extends (\<lambda>c. True) s s'" if "performSearch w q s = (r, s')" for q s r s'
        using that by (rule performSearch_extends_if) simp
      show "extends (\<lambda>c. True) a c" if "extends (\<lambda>c. True) a b" "extends (\<lambda>c. True) b c" for a b c
        using that by (rule extends_trans)
    qed (simp_all add: extends_refl e)
    show ?thesis
    proof (cases "\<exists>newOuts. r2 = Return newOuts \<and> toolCalls stp \<noteq> [] \<and> n + 1 < 5")
      case True
      then obtain newOuts where "r2 = Return newOuts" "toolCalls stp \<noteq> []" "n + 1 < 5" by blast
      with g Return e have "generateText_steps w u l (n + 1) (outs @ newOuts) s2 = (r, s')"
        by (simp add: generateText_steps.simps [of w u l n outs s] a_def [symmetric] s1_def Let_def)
      then have "extends (\<lambda>c. True) s2 s'"
      proof (rule generateText_steps_rel [of "extends (\<lambda>c. True)" w l u "n + 1" "outs @ newOuts" s2 r s', rotated -1])
        show "extends (\<lambda>c. True) s s'" if "performSearch w q s = (r, s')" for q s r s'
          using that by (rule performSearch_extends_if) simp
        show "extends (\<lambda>c. True) a c" if "extends (\<lambda>c. True) a b" "extends (\<lambda>c. True) b c" for a b c
          using that by (rule extends_trans)
      qed (simp_all add: extends_refl extends_record_call)
      with e2 show ?thesis using extends_trans by blast
    next
      case False
      with g Return e have "s' = s2"
        by (cases r2) (auto simp add: generateText_steps.simps [of w u l n outs s] a_def [symmetric] s1_def Let_def)
      with e2 show ?thesis by simp
    qed
  qed
  with c1 show ?thesis by (auto simp add: extends_def)
qed

lemma session_call_search: "is_search_call c \<Longrightarrow> session_call i c"
  by (auto simp add: is_search_call_def session_call_def split: call.splits)

lemma generateText_knowledge_calls:
  assumes "generateText_knowledge w u l s = (r, s')"
  shows "extends (session_call (iteration l)) s s'"
    and "\<exists>a cs. calls s' = calls s @ KnowledgeStepCall (iteration l) a # cs"
proof -
  show "extends (session_call (iteration l)) s s'"
  proof (rule generateText_knowledge_rel [of "extends (session_call (iteration l))" w l u s r s'])
    show "extends (session_call (iteration l)) s s'" if "performSearch w q s = (r, s')" for q s r s'
      using that by (rule performSearch_extends_if) (rule session_call_search)
    show "extends (session_call (iteration l)) s (record_call (KnowledgeStepCall (iteration l) a) s)" for a s
      by (simp add: extends_record_call session_call_def)
    show "extends (session_call (iteration l)) a c"
      if "extends (session_call (iteration l)) a b" "extends (session_call (iteration l)) b c" for a b c
      using that by (rule extends_trans)
  qed (simp_all add: extends_refl assms)
  show "\<exists>a cs. calls s' = calls s @ KnowledgeStepCall (iteration l) a # cs"
    using assms generateText_steps_asks by (simp add: generateText_knowledge_def)
qed

lemma within_iterations_search: "is_search_call c \<Longrightarrow> within_iterations lo hi c"
  by (auto simp add: is_search_call_def within_iterations_def split: call.splits)

lemma agentic_loop_calls:
  assumes "agentic_loop w u l s = (r, s')"
  shows "extends (within_iterations (iteration l) (max maxIterations (iteration l + 1))) s s'"
proof (rule agentic_loop_rel
    [of "\<lambda>i. extends (within_iterations i (max maxIterations (i + 1)))" w u l s r s'])
  show "extends (within_iterations i (max maxIterations (i + 1))) s s'"
    if "performSearch w q s = (r, s')" for i q s r s'
    using that by (rule performSearch_extends_if) (rule within_iterations_search)
  show "extends (within_iterations i (max maxIterations (i + 1))) s
          (record_call (KnowledgeStepCall (Suc i) a) s)" for i a s
    by (simp add: extends_record_call within_iterations_def)
  show "extends (within_iterations i (max maxIterations (i + 1))) s
          (record_call (EvaluateCall (Suc i) a) s)" for i a s
    by (simp add: extends_record_call within_iterations_def)
  show "extends (within_iterations i (max maxIterations (i + 1))) a b"
    if "Suc i < maxIterations" "extends (within_iterations (Suc i) (max maxIterations (Suc i + 1))) a b"
    for i a b
  proof (rule extends_mono [OF that(2)])
    fix c
    assume "within_iterations (Suc i) (max maxIterations (Suc i + 1)) c"
    with that(1) show "within_iterations i (max maxIterations (i + 1)) c"
      by (auto simp add: within_iterations_def split: call.splits)
  qed
  show "extends (within_iterations i (max maxIterations (i + 1))) a c"
    if "extends (within_iterations i (max maxIterations (i + 1))) a b"
      "extends (within_iterations i (max maxIterations (i + 1))) b c" for i a b c
    using that by (rule extends_trans)
qed (simp_all add: extends_refl assms)

subsection \<open>One iteration\<close>

text \<open>One iteration of the loop, by what the two generations return.\<close>

lemma agentic_loop_blank:
  assumes "generateText_knowledge w u (l\<lparr>iteration := iteration l + 1\<rparr>) s = (Return k, s1)"
    and "trim k = []"
  shows "agentic_loop w u l s = (Return (l\<lparr>iteration := iteration l + 1\<rparr>), s1)"
  using assms by (simp add: agentic_loop.simps [of w u l s] Let_def)

lemma agentic_loop_extract_raise:
  assumes "generateText_knowledge w u (l\<lparr>iteration := iteration l + 1\<rparr>) s = (Raise e, s1)"
  shows "agentic_loop w u l s = (Raise e, s1)"
  using assms by (simp add: agentic_loop.simps [of w u l s] Let_def)

lemma agentic_loop_evaluated:
  assumes "generateText_knowledge w u (l\<lparr>iteration := iteration l + 1\<rparr>) s = (Return k, s1)"
    and "trim k \<noteq> []"
    and "l2 = l\<lparr>iteration := iteration l + 1, accumulatedKnowledge := accumulatedKnowledge l @ [k]\<rparr>"
    and "a = evaluate w (length (calls s1)) u l2"
    and "s2 = record_call (EvaluateCall (iteration l + 1) a) s1"
  shows "agentic_loop w u l s =
     (case a of
        Raise e \<Rightarrow> (Raise e, s2)
      | Return d \<Rightarrow>
          if isKnowledgeEnough d \<or> maxIterations \<le> iteration l + 1 then (Return l2, s2)
          else if truthy (nextSearchQuery d)
          then agentic_loop w u (l2\<lparr>currentSearchQuery := the (nextSearchQuery d)\<rparr>) s2
          else (Return l2, s2))"
  using assms
  by (simp add: agentic_loop.simps [of w u l s] Let_def generateObject_decision_def
      split: outcome.splits)

lemma agentic_loop_cases [consumes 1, case_names extract_raise blank evaluate_raise stop no_query continue]:
  assumes run: "agentic_loop w u l s = (r, s')"
  obtains
    (extract_raise) e where
      "generateText_knowledge w u (l\<lparr>iteration := iteration l + 1\<rparr>) s = (Raise e, s')"
      "r = Raise e"
  | (blank) k where
      "generateText_knowledge w u (l\<lparr>iteration := iteration l + 1\<rparr>) s = (Return k, s')"
      "trim k = []" "r = Return (l\<lparr>iteration := iteration l + 1\<rparr>)"
  | (evaluate_raise) k s1 e where
      "generateText_knowledge w u (l\<lparr>iteration := iteration l + 1\<rparr>) s = (Return k, s1)"
      "trim k \<noteq> []"
      "s' = record_call (EvaluateCall (iteration l + 1) (Raise e)) s1" "r = Raise e"
      "evaluate w (length (calls s1)) u
         (l\<lparr>iteration := iteration l + 1, accumulatedKnowledge := accumulatedKnowledge l @ [k]\<rparr>) =
       Raise e"
  | (stop) k s1 d where
      "generateText_knowledge w u (l\<lparr>iteration := iteration l + 1\<rparr>) s = (Return k, s1)"
      "trim k \<noteq> []"
      "s' = record_call (EvaluateCall (iteration l + 1) (Return d)) s1"
      "isKnowledgeEnough d \<or> maxIterations \<le> iteration l + 1"
      "r = Return (l\<lparr>iteration := iteration l + 1, accumulatedKnowledge := accumulatedKnowledge l @ [k]\<rparr>)"
      "evaluate w (length (calls s1)) u
         (l\<lparr>iteration := iteration l + 1, accumulatedKnowledge := accumulatedKnowledge l @ [k]\<rparr>) =
       Return d"
  | (no_query) k s1 d where
      "generateText_knowledge w u (l\<lparr>iteration := iteration l + 1\<rparr>) s = (Return k, s1)"
      "trim k \<noteq> []"
      "s' = record_call (EvaluateCall (iteration l + 1) (Return d)) s1"
      "\<not> isKnowledgeEnough d" "iteration l + 1 < maxIterations" "\<not> truthy (nextSearchQuery d)"
      "r = Return (l\<lparr>iteration := iteration l + 1, accumulatedKnowledge := accumulatedKnowledge l @ [k]\<rparr>)"
      "evaluate w (length (calls s1)) u
         (l\<lparr>iteration := iteration l + 1, accumulatedKnowledge := accumulatedKnowledge l @ [k]\<rparr>) =
       Return d"
  | (continue) k s1 d where
      "generateText_knowledge w u (l\<lparr>iteration := iteration l + 1\<rparr>) s = (Return k, s1)"
      "trim k \<noteq> []"
      "\<not> isKnowledgeEnough d" "iteration l + 1 < maxIterations" "truthy (nextSearchQuery d)"
      "agentic_loop w u
         (l\<lparr>iteration := iteration l + 1, accumulatedKnowledge := accumulatedKnowledge l @ [k],
            currentSearchQuery := the (nextSearchQuery d)\<rparr>)
         (record_call (EvaluateCall (iteration l + 1) (Return d)) s1) = (r, s')"
      "evaluate w (length (calls s1)) u
         (l\<lparr>iteration := iteration l + 1, accumulatedKnowledge := accumulatedKnowledge l @ [k]\<rparr>) =
       Return d"
proof -
  obtain r1 s1 where g: "generateText_knowledge w u (l\<lparr>iteration := iteration l + 1\<rparr>) s = (r1, s1)"
    by (cases "generateText_knowledge w u (l\<lparr>iteration := iteration l + 1\<rparr>) s")
  show thesis
  proof (cases r1)
    case (Raise e)
    with g run agentic_loop_extract_raise [of w u l s e s1] show thesis
      using extract_raise by simp
  next
    case (Return k) note ret = this
    show thesis
    proof (cases "trim k = []")
      case True
      with g ret run agentic_loop_blank [of w u l s k s1] show thesis
        using blank by simp
    next
      case False
      define l2 where "l2 = l\<lparr>iteration := iteration l + 1, accumulatedKnowledge := accumulatedKnowledge l @ [k]\<rparr>"
      define a where "a = evaluate w (length (calls s1)) u l2"
      define s2 where "s2 = record_call (EvaluateCall (iteration l + 1) a) s1"
      from g ret have g': "generateText_knowledge w u (l\<lparr>iteration := iteration l + 1\<rparr>) s = (Return k, s1)"
        by simp
      note eq = agentic_loop_evaluated [OF g' False l2_def a_def s2_def]
      show thesis
      proof (cases a)
        case (Raise e)
        with eq run have "r = Raise e" "s' = s2" by simp_all
        then show thesis using evaluate_raise [OF g' False] Raise by (simp add: s2_def a_def l2_def)
      next
        case (Return d) note dec = this
        show thesis
        proof (cases "isKnowledgeEnough d \<or> maxIterations \<le> iteration l + 1")
          case True
          with eq run dec have "r = Return l2" "s' = s2" by auto
          then show thesis using stop [OF g' False _ True] dec by (simp add: s2_def l2_def a_def)
        next
          case False note nostop = this
          show thesis
          proof (cases "truthy (nextSearchQuery d)")
            case True
            with eq run dec nostop
            have "agentic_loop w u (l2\<lparr>currentSearchQuery := the (nextSearchQuery d)\<rparr>) s2 = (r, s')"
              by auto
            then show thesis
              using continue [OF g' \<open>trim k \<noteq> []\<close> _ _ True, of ] nostop dec
              by (simp add: s2_def l2_def a_def)
          next
            case False
            with eq run dec nostop have "r = Return l2" "s' = s2" by auto
            then show thesis
              using no_query [OF g' \<open>trim k \<noteq> []\<close> _ _ _ False] nostop dec
              by (simp add: s2_def l2_def a_def)
          qed
        qed
      qed
    qed
  qed
qed

subsection \<open>The number of iterations\<close>

lemma new_calls_append: "calls s' = calls s @ cs \<Longrightarrow> new_calls s s' = cs"
  by (simp add: new_calls_def)

lemma session_call_not_evaluate: "session_call i c \<Longrightarrow> c \<noteq> EvaluateCall j a"
  by (auto simp add: session_call_def)

lemma session_no_evaluate:
  assumes "extends (session_call i) s s'"
  shows "EvaluateCall j a \<notin> set (new_calls s s')"
proof -
  from assms obtain cs where "calls s' = calls s @ cs" "\<forall>c \<in> set cs. session_call i c"
    by (auto simp add: extends_def)
  then show ?thesis
    using session_call_not_evaluate [of i "EvaluateCall j a" j a] by (auto simp add: new_calls_def)
qed

lemma session_then_evaluate:
  assumes "extends (session_call i) s s1"
    and "EvaluateCall k y \<in> set (new_calls s (record_call (EvaluateCall j x) s1))"
  shows "k = j \<and> y = x"
proof -
  from assms(1) obtain cs where cs: "calls s1 = calls s @ cs" "\<forall>c \<in> set cs. session_call i c"
    by (auto simp add: extends_def)
  then have "new_calls s (record_call (EvaluateCall j x) s1) = cs @ [EvaluateCall j x]"
    by (simp add: new_calls_def record_call_def)
  with assms(2) cs(2) show ?thesis
    using session_call_not_evaluate [of i "EvaluateCall k y" k y] by auto
qed

lemma agentic_loop_iteration:
  assumes "agentic_loop w u l s = (Return l', s')"
  shows "iteration l < iteration l' \<and> iteration l' \<le> max maxIterations (iteration l + 1)"
  using assms
proof (induction "maxIterations - iteration l" arbitrary: l s rule: less_induct)
  case less
  from less.prems show ?case
  proof (cases rule: agentic_loop_cases)
    case (continue k s1 d)
    let ?l3 = "l\<lparr>iteration := iteration l + 1, accumulatedKnowledge := accumulatedKnowledge l @ [k],
            currentSearchQuery := the (nextSearchQuery d)\<rparr>"
    have "maxIterations - iteration ?l3 < maxIterations - iteration l"
      using continue(4) by simp
    from less.hyps [OF this continue(6)] continue(4) show ?thesis by auto
  qed auto
qed

lemma sufficient_stops:
  assumes "agentic_loop w u l s = (r, s')"
    and "EvaluateCall k (Return d) \<in> set (new_calls s s')" and "isKnowledgeEnough d"
  shows "\<exists>l'. r = Return l' \<and> iteration l' = k"
  using assms
proof (induction "maxIterations - iteration l" arbitrary: l s rule: less_induct)
  case less
  let ?l1 = "l\<lparr>iteration := iteration l + 1\<rparr>"
  from less.prems(1) show ?case
  proof (cases rule: agentic_loop_cases)
    case (extract_raise e)
    from session_no_evaluate [OF generateText_knowledge_calls(1) [OF extract_raise(1)]] less.prems(2)
    show ?thesis by simp
  next
    case (blank kn)
    from session_no_evaluate [OF generateText_knowledge_calls(1) [OF blank(1)]] less.prems(2)
    show ?thesis by simp
  next
    case (evaluate_raise kn s1 e)
    from session_then_evaluate [OF generateText_knowledge_calls(1) [OF evaluate_raise(1)]]
      less.prems(2) evaluate_raise(3)
    show ?thesis by blast
  next
    case (stop kn s1 d0)
    from session_then_evaluate [OF generateText_knowledge_calls(1) [OF stop(1)]]
      less.prems(2) stop(3)
    have "k = iteration l + 1" by blast
    with stop(5) show ?thesis by simp
  next
    case (no_query kn s1 d0)
    from session_then_evaluate [OF generateText_knowledge_calls(1) [OF no_query(1)]]
      less.prems(2) no_query(3)
    have "d = d0" by blast
    with no_query(4) less.prems(3) show ?thesis by simp
  next
    case (continue kn s1 d0)
    let ?l3 = "l\<lparr>iteration := iteration l + 1, accumulatedKnowledge := accumulatedKnowledge l @ [kn],
            currentSearchQuery := the (nextSearchQuery d0)\<rparr>"
    let ?s2 = "record_call (EvaluateCall (iteration l + 1) (Return d0)) s1"
    from generateText_knowledge_calls(1) [OF continue(1)] obtain cs1 where
      cs1: "calls s1 = calls s @ cs1" "\<forall>c \<in> set cs1. session_call (iteration l + 1) c"
      by (auto simp add: extends_def)
    from agentic_loop_calls [OF continue(6)] obtain cs3 where
      cs3: "calls s' = calls ?s2 @ cs3"
      by (auto simp add: extends_def)
    have all: "new_calls s s' = cs1 @ EvaluateCall (iteration l + 1) (Return d0) # cs3"
      using cs1(1) cs3 by (simp add: new_calls_def record_call_def)
    have rest: "new_calls ?s2 s' = cs3"
      using cs3 by (simp add: new_calls_def)
    from less.prems(2) all cs1(2) have "EvaluateCall k (Return d) \<in> set cs3 \<or> d = d0"
      using session_call_not_evaluate [of "iteration l + 1" "EvaluateCall k (Return d)" k "Return d"]
      by auto
    with continue(3) less.prems(3) have "EvaluateCall k (Return d) \<in> set (new_calls ?s2 s')"
      using rest by auto
    moreover have "maxIterations - iteration ?l3 < maxIterations - iteration l"
      using continue(4) by simp
    ultimately show ?thesis
      using less.hyps [of ?l3 ?s2] continue(6) less.prems(3) by blast
  qed
qed

lemma asks_for_more_iff:
  "asks_for_more cs j \<longleftrightarrow>
   (\<exists>d. EvaluateCall j (Return d) \<in> set cs \<and> \<not> isKnowledgeEnough d \<and> truthy (nextSearchQuery d))"
proof
  assume "asks_for_more cs j"
  then obtain c where c: "c \<in> set cs"
    "case c of EvaluateCall k (Return d) \<Rightarrow>
       k = j \<and> \<not> isKnowledgeEnough d \<and> truthy (nextSearchQuery d) | _ \<Rightarrow> False"
    unfolding asks_for_more_def by blast
  from c(2) obtain d where "c = EvaluateCall j (Return d)" "\<not> isKnowledgeEnough d"
    "truthy (nextSearchQuery d)"
    by (cases c) (auto split: outcome.splits)
  with c(1) show "\<exists>d. EvaluateCall j (Return d) \<in> set cs \<and> \<not> isKnowledgeEnough d \<and>
      truthy (nextSearchQuery d)" by blast
next
  assume "\<exists>d. EvaluateCall j (Return d) \<in> set cs \<and> \<not> isKnowledgeEnough d \<and>
      truthy (nextSearchQuery d)"
  then show "asks_for_more cs j"
    unfolding asks_for_more_def by force
qed

lemma never_sufficient_runs_to_the_bound:
  assumes "agentic_loop w u l s = (r, s')" and "iteration l < maxIterations"
    and "never_sufficient (new_calls s s')"
  shows "\<exists>l'. r = Return l' \<and> iteration l' = maxIterations"
  using assms
proof (induction "maxIterations - iteration l" arbitrary: l s rule: less_induct)
  case less
  let ?l1 = "l\<lparr>iteration := iteration l + 1\<rparr>"
  have asked: "\<exists>d. EvaluateCall (iteration l + 1) (Return d) \<in> set (new_calls s s') \<and>
                 \<not> isKnowledgeEnough d \<and> truthy (nextSearchQuery d)"
    if g: "generateText_knowledge w u ?l1 s = (r1, s1)" and e: "extends (\<lambda>c. True) s1 s'" for r1 s1
  proof -
    from generateText_knowledge_calls(2) [OF g] obtain a cs where
      "calls s1 = calls s @ KnowledgeStepCall (iteration l + 1) a # cs" by auto
    with e have "KnowledgeStepCall (iteration l + 1) a \<in> set (new_calls s s')"
      by (auto simp add: extends_def new_calls_def)
    with less.prems(3) have "asks_for_more (new_calls s s') (iteration l + 1)"
      by (auto simp add: never_sufficient_def split: call.splits)
    then show ?thesis by (simp add: asks_for_more_iff)
  qed
  from less.prems(1) show ?case
  proof (cases rule: agentic_loop_cases)
    case (extract_raise e)
    from asked [OF extract_raise(1) extends_refl]
      session_no_evaluate [OF generateText_knowledge_calls(1) [OF extract_raise(1)]]
    show ?thesis by auto
  next
    case (blank kn)
    from asked [OF blank(1) extends_refl]
      session_no_evaluate [OF generateText_knowledge_calls(1) [OF blank(1)]]
    show ?thesis by auto
  next
    case (evaluate_raise kn s1 e)
    have "extends (\<lambda>c. True) s1 s'"
      unfolding evaluate_raise(3) by (simp add: extends_record_call)
    from asked [OF evaluate_raise(1) this]
      session_then_evaluate [OF generateText_knowledge_calls(1) [OF evaluate_raise(1)]]
      evaluate_raise(3)
    show ?thesis by blast
  next
    case (stop kn s1 d0)
    have "extends (\<lambda>c. True) s1 s'"
      unfolding stop(3) by (simp add: extends_record_call)
    from asked [OF stop(1) this]
      session_then_evaluate [OF generateText_knowledge_calls(1) [OF stop(1)]] stop(3)
    have "\<not> isKnowledgeEnough d0" by blast
    with stop(4) less.prems(2) have "iteration l + 1 = maxIterations" by simp
    with stop(5) show ?thesis by simp
  next
    case (no_query kn s1 d0)
    have "extends (\<lambda>c. True) s1 s'"
      unfolding no_query(3) by (simp add: extends_record_call)
    from asked [OF no_query(1) this]
      session_then_evaluate [OF generateText_knowledge_calls(1) [OF no_query(1)]] no_query(3)
    have "truthy (nextSearchQuery d0)" by blast
    with no_query(6) show ?thesis by simp
  next
    case (continue kn s1 d0)
    let ?l3 = "l\<lparr>iteration := iteration l + 1, accumulatedKnowledge := accumulatedKnowledge l @ [kn],
            currentSearchQuery := the (nextSearchQuery d0)\<rparr>"
    let ?s2 = "record_call (EvaluateCall (iteration l + 1) (Return d0)) s1"
    from generateText_knowledge_calls(1) [OF continue(1)] obtain cs1 where
      cs1: "calls s1 = calls s @ cs1" "\<forall>c \<in> set cs1. session_call (iteration l + 1) c"
      by (auto simp add: extends_def)
    from agentic_loop_calls [OF continue(6)] obtain cs3 where
      cs3: "calls s' = calls ?s2 @ cs3"
        "\<forall>c \<in> set cs3. within_iterations (iteration l + 1) (max maxIterations (iteration l + 1 + 1)) c"
      by (auto simp add: extends_def)
    have all: "new_calls s s' = cs1 @ EvaluateCall (iteration l + 1) (Return d0) # cs3"
      using cs1(1) cs3(1) by (simp add: new_calls_def record_call_def)
    have rest: "new_calls ?s2 s' = cs3"
      using cs3(1) by (simp add: new_calls_def)
    have "never_sufficient cs3"
      unfolding never_sufficient_def
    proof
      fix c
      assume c: "c \<in> set cs3"
      show "case c of KnowledgeStepCall j a \<Rightarrow> asks_for_more cs3 j | _ \<Rightarrow> True"
      proof (cases c)
        case (KnowledgeStepCall j a)
        with c cs3(2) have j: "iteration l + 1 < j"
          by (auto simp add: within_iterations_def)
        from c KnowledgeStepCall less.prems(3) all have "asks_for_more (new_calls s s') j"
          by (auto simp add: never_sufficient_def split: call.splits)
        then obtain d where d: "EvaluateCall j (Return d) \<in> set (new_calls s s')"
          "\<not> isKnowledgeEnough d" "truthy (nextSearchQuery d)"
          by (auto simp add: asks_for_more_iff)
        from d(1) all j cs1(2) have "EvaluateCall j (Return d) \<in> set cs3"
          using session_call_not_evaluate [of "iteration l + 1" "EvaluateCall j (Return d)" j "Return d"]
          by auto
        with d(2,3) have "asks_for_more cs3 j"
          by (auto simp add: asks_for_more_iff)
        with KnowledgeStepCall show ?thesis by simp
      qed simp_all
    qed
    moreover have "maxIterations - iteration ?l3 < maxIterations - iteration l"
      using continue(4) by simp
    moreover have "iteration ?l3 < maxIterations" using continue(4) by simp
    ultimately show ?thesis
      using less.hyps [of ?l3 ?s2] continue(6) rest by simp
  qed
qed

lemmas loop_eval =
  agentic_loop.simps generateText_knowledge_def generateText_steps.simps
  generateObject_decision_def trim_def is_space_def maxIterations_def
  loop_world_def demo_agent_def start_vars_def Let_def record_call_def truthy_def

lemma streamWithMultiStepTools_eq:
  assumes "messages s \<noteq> []"
    and "rewriteQuery w (content (last (messages s))) (s\<lparr>allFiles := []\<rparr>) = (q, s1)"
    and "agentic_loop w (content (last (messages s)))
           \<lparr>iteration = 0, currentSearchQuery = q, accumulatedKnowledge = []\<rparr> s1 = (r, s2)"
  shows "streamWithMultiStepTools w s =
     (case r of
        Raise e \<Rightarrow> (Raise e, s2)
      | Return l \<Rightarrow>
          (Return (map snd (allFiles (finalAnswer w (content (last (messages s))) l s2))),
           finalAnswer w (content (last (messages s))) l s2))"
  using assms by (simp add: streamWithMultiStepTools_def Let_def split: outcome.splits)

lemma agentic_loop_frame:
  assumes "agentic_loop w u l s = (r, s')"
  shows "messages s' = messages s \<and> selectedRag (agentState s') = selectedRag (agentState s)"
  by (rule agentic_loop_rel
        [of "\<lambda>i a b. messages b = messages a \<and>
               selectedRag (agentState b) = selectedRag (agentState a)" w u l s r s'])
     (use assms performSearch_frame in \<open>auto simp add: record_call_def\<close>)

lemma stream_events_append: "stream_events (xs @ ys) = stream_events xs @ stream_events ys"
  by (induction xs rule: stream_events.induct) simp_all

lemma stream_text_append: "stream_text (xs @ ys) = stream_text xs @ stream_text ys"
  by (induction xs rule: stream_text.induct) simp_all

lemmas run_eval =
  streamWithMultiStepTools_def rewriteQuery_def previousUserMessages_def finalAnswer_eq send_def

subsection \<open>Searches do not abort the loop\<close>

lemma executeTools_returns:
  "\<exists>outs s'. executeTools w qs s = (Return outs, s') \<and> length outs = length qs"
proof (induction qs arbitrary: s)
  case Nil
  then show ?case by simp
next
  case (Cons q qs)
  obtain r1 s1 where p: "searchTool w q s = (r1, s1)"
    by (cases "searchTool w q s")
  from Cons.IH [of s1] obtain outs s2 where
    "executeTools w qs s1 = (Return outs, s2)" "length outs = length qs" by blast
  with p show ?case by (cases r1) simp_all
qed

lemma generateText_steps_returns:
  assumes "\<forall>t u l outs. \<exists>step. knowledgeStep w t u l outs = Return step"
  shows "\<exists>k s'. generateText_steps w u l n outs s = (Return k, s')"
proof (induction "5 - n" arbitrary: n outs s rule: less_induct)
  case less
  from assms obtain stp where a: "knowledgeStep w (length (calls s)) u l outs = Return stp"
    by blast
  define s1 where "s1 = record_call (KnowledgeStepCall (iteration l) (Return stp)) s"
  from executeTools_returns [of w "toolCalls stp" s1] obtain newOuts s2 where
    e: "executeTools w (toolCalls stp) s1 = (Return newOuts, s2)"
    by blast
  show ?case
  proof (cases "toolCalls stp \<noteq> [] \<and> n + 1 < 5")
    case True
    then have "5 - (n + 1) < 5 - n" by arith
    then obtain k s' where "generateText_steps w u l (n + 1) (outs @ newOuts) s2 = (Return k, s')"
      using less.hyps by blast
    with True a e show ?thesis
      by (simp add: generateText_steps.simps [of w u l n outs s] s1_def Let_def)
  next
    case False
    with a e show ?thesis
      by (auto simp add: generateText_steps.simps [of w u l n outs s] s1_def Let_def)
  qed
qed

lemma agentic_loop_returns:
  assumes "models_answer w"
  shows "\<exists>l' s'. agentic_loop w u l s = (Return l', s')"
proof (induction "maxIterations - iteration l" arbitrary: l s rule: less_induct)
  case less
  obtain r s' where run: "agentic_loop w u l s = (r, s')"
    by (cases "agentic_loop w u l s")
  from assms have ks: "\<forall>t u l outs. \<exists>step. knowledgeStep w t u l outs = Return step"
    and ev: "\<And>t u l. \<exists>d. evaluate w t u l = Return d"
    by (simp_all add: models_answer_def)
  from run show ?case
  proof (cases rule: agentic_loop_cases)
    case (extract_raise e)
    with generateText_steps_returns [OF ks, of u "l\<lparr>iteration := iteration l + 1\<rparr>" 0 "[]" s]
    show ?thesis by (simp add: generateText_knowledge_def)
  next
    case (blank k)
    with run show ?thesis by simp
  next
    case (evaluate_raise k s1 e)
    with ev [of "length (calls s1)" u
        "l\<lparr>iteration := iteration l + 1, accumulatedKnowledge := accumulatedKnowledge l @ [k]\<rparr>"]
    show ?thesis by simp
  next
    case (stop k s1 d)
    with run show ?thesis by simp
  next
    case (no_query k s1 d)
    with run show ?thesis by simp
  next
    case (continue k s1 d)
    let ?l3 = "l\<lparr>iteration := iteration l + 1, accumulatedKnowledge := accumulatedKnowledge l @ [k],
            currentSearchQuery := the (nextSearchQuery d)\<rparr>"
    let ?s2 = "record_call (EvaluateCall (iteration l + 1) (Return d)) s1"
    have "maxIterations - iteration ?l3 < maxIterations - iteration l"
      using continue(4) by simp
    then have "\<exists>l' s'. agentic_loop w u ?l3 ?s2 = (Return l', s')"
      using less.hyps by blast
    with continue(6) run show ?thesis by simp
  qed
qed

subsection \<open>The phases of a run\<close>

text \<open>
  A loop that returns has gone through its iterations in order, each with an extraction
  session and, but possibly for the last, one evaluation, and has added one entry of
  knowledge per evaluation.
\<close>

lemma remdups_adj_const: "xs \<noteq> [] \<Longrightarrow> \<forall>x \<in> set xs. x = a \<Longrightarrow> remdups_adj xs = [a]"
  by (induction xs rule: remdups_adj.induct) auto

lemma full_iterations_step:
  "lo < hi \<Longrightarrow> full_iterations lo hi = Extraction (lo + 1) # Evaluation (lo + 1) # full_iterations (lo + 1) hi"
  by (simp add: full_iterations_def upt_conv_Cons)

lemma full_iterations_empty: "full_iterations lo lo = []"
  by (simp add: full_iterations_def)

lemma session_tags:
  assumes "\<forall>c \<in> set cs. session_call j c" and "KnowledgeStepCall j a \<in> set cs"
  shows "concat (map phase_of cs) \<noteq> []"
    and "\<forall>p \<in> set (concat (map phase_of cs)). p = Extraction j"
    and "evaluated_in cs = []"
proof -
  have "phase_of (KnowledgeStepCall j a) \<noteq> []"
    by (simp add: phase_of_def)
  with assms(2) show "concat (map phase_of cs) \<noteq> []"
    by (simp only: concat_eq_Nil_conv set_map) blast
  from assms(1) show "\<forall>p \<in> set (concat (map phase_of cs)). p = Extraction j"
    by (auto simp add: phase_of_def session_call_def split: call.splits)
  from assms(1) show "evaluated_in cs = []"
    by (auto simp add: evaluated_in_def session_call_def split: call.splits)
qed

lemma phases_session:
  assumes "\<forall>c \<in> set cs. session_call j c" and "KnowledgeStepCall j a \<in> set cs"
  shows "phases cs = [Extraction j]"
  unfolding phases_def using session_tags(1,2) [OF assms] by (rule remdups_adj_const)

lemma phases_iteration:
  assumes "\<forall>c \<in> set cs. session_call j c" and "KnowledgeStepCall j x \<in> set cs"
    and "concat (map phase_of rest) = [] \<or> hd (concat (map phase_of rest)) \<noteq> Evaluation j"
  shows "phases (cs @ EvaluateCall j a # rest) = Extraction j # Evaluation j # phases rest"
proof -
  let ?A = "concat (map phase_of cs)"
  let ?B = "concat (map phase_of rest)"
  note t = session_tags [OF assms(1,2)]
  from t(1,2) have "last ?A = Extraction j" by (meson last_in_set)
  then have "remdups_adj (?A @ (Evaluation j # ?B)) = remdups_adj ?A @ remdups_adj (Evaluation j # ?B)"
    by (intro remdups_adj_append') simp
  moreover have "remdups_adj ?A = [Extraction j]"
    using t(1,2) by (rule remdups_adj_const)
  moreover have "remdups_adj (Evaluation j # ?B) = Evaluation j # remdups_adj ?B"
  proof (cases ?B)
    case Nil
    then show ?thesis by (simp only: remdups_adj.simps)
  next
    case (Cons b bs)
    with assms(3) have "b \<noteq> Evaluation j" by simp
    with Cons show ?thesis by (simp only: remdups_adj.simps) simp
  qed
  ultimately show ?thesis
    by (simp add: phases_def phase_of_def)
qed

lemma hd_session:
  assumes "\<forall>c \<in> set cs. session_call j c" and "KnowledgeStepCall j x \<in> set cs"
  shows "hd (concat (map phase_of cs) @ ys) = Extraction j"
  using session_tags(1,2) [OF assms] by (cases "concat (map phase_of cs)") auto

lemma session_calls:
  assumes "generateText_knowledge w u l s = (r, s1)"
  obtains cs a where "calls s1 = calls s @ cs" "\<forall>c \<in> set cs. session_call (iteration l) c"
    "KnowledgeStepCall (iteration l) a \<in> set cs"
proof -
  from generateText_knowledge_calls(1) [OF assms] obtain cs where
    cs: "calls s1 = calls s @ cs" "\<forall>c \<in> set cs. session_call (iteration l) c"
    by (auto simp add: extends_def)
  from generateText_knowledge_calls(2) [OF assms] cs(1) have
    "\<exists>a. KnowledgeStepCall (iteration l) a \<in> set cs" by auto
  with cs that show thesis by blast
qed


lemma agentic_loop_phases:
  assumes "agentic_loop w u l s = (Return l', s')"
  shows "\<exists>ks. accumulatedKnowledge l' = accumulatedKnowledge l @ ks \<and>
     list_all (\<lambda>k. trim k \<noteq> []) ks \<and>
     hd (concat (map phase_of (new_calls s s'))) = Extraction (iteration l + 1) \<and>
     (phases (new_calls s s') = full_iterations (iteration l) (iteration l') \<and>
      evaluated_in (new_calls s s') = [iteration l + 1 ..< iteration l' + 1] \<and>
      length ks = iteration l' - iteration l \<or>
      phases (new_calls s s') =
        full_iterations (iteration l) (iteration l' - 1) @ [Extraction (iteration l')] \<and>
      evaluated_in (new_calls s s') = [iteration l + 1 ..< iteration l'] \<and>
      length ks + 1 = iteration l' - iteration l)"
  using assms
proof (induction "maxIterations - iteration l" arbitrary: l s rule: less_induct)
  case less
  let ?i = "iteration l + 1"
  have one: "\<exists>ks. accumulatedKnowledge l' = accumulatedKnowledge l @ ks \<and>
     list_all (\<lambda>k. trim k \<noteq> []) ks \<and>
     hd (concat (map phase_of (new_calls s s'))) = Extraction ?i \<and>
     (phases (new_calls s s') = full_iterations (iteration l) (iteration l') \<and>
      evaluated_in (new_calls s s') = [?i ..< iteration l' + 1] \<and>
      length ks = iteration l' - iteration l \<or>
      phases (new_calls s s') =
        full_iterations (iteration l) (iteration l' - 1) @ [Extraction (iteration l')] \<and>
      evaluated_in (new_calls s s') = [?i ..< iteration l'] \<and>
      length ks + 1 = iteration l' - iteration l)"
    if g: "generateText_knowledge w u (l\<lparr>iteration := ?i\<rparr>) s = (Return k, s1)"
      and t: "trim k \<noteq> []"
      and s': "s' = record_call (EvaluateCall ?i (Return d)) s1"
      and l': "Return l' = Return (l\<lparr>iteration := ?i, accumulatedKnowledge := accumulatedKnowledge l @ [k]\<rparr>)"
    for k s1 d
  proof -
    from g obtain cs a where cs: "calls s1 = calls s @ cs" "\<forall>c \<in> set cs. session_call ?i c"
      "KnowledgeStepCall ?i a \<in> set cs"
      by (rule session_calls) simp
    have n: "new_calls s s' = cs @ EvaluateCall ?i (Return d) # []"
      using cs(1) s' by (simp add: new_calls_def record_call_def)
    have p: "phases (new_calls s s') = [Extraction ?i, Evaluation ?i]"
      unfolding n using phases_iteration [OF cs(2,3), of "[]" "Return d"] by (simp add: phases_def)
    have h: "hd (concat (map phase_of (new_calls s s'))) = Extraction ?i"
      unfolding n using hd_session [OF cs(2,3)] by simp
    have e: "evaluated_in (new_calls s s') = [?i]"
      unfolding n using session_tags(3) [OF cs(2,3)] by (simp add: evaluated_in_def)
    from l' have il: "iteration l' = ?i" "accumulatedKnowledge l' = accumulatedKnowledge l @ [k]"
      by auto
    have f: "full_iterations (iteration l) ?i = [Extraction ?i, Evaluation ?i]"
      by (simp add: full_iterations_def)
    show ?thesis
      apply (rule exI [of _ "[k]"])
      using p h e il f t by simp
  qed
  from less.prems show ?case
  proof (cases rule: agentic_loop_cases)
    case (extract_raise e)
    then show ?thesis by simp
  next
    case (blank k)
    from blank(1) obtain cs a where cs: "calls s' = calls s @ cs" "\<forall>c \<in> set cs. session_call ?i c"
      "KnowledgeStepCall ?i a \<in> set cs"
      by (rule session_calls) simp
    have n: "new_calls s s' = cs"
      using cs(1) by (simp add: new_calls_def)
    from blank(3) have il: "iteration l' = ?i" "accumulatedKnowledge l' = accumulatedKnowledge l"
      by auto
    have "phases (new_calls s s') = [Extraction ?i]"
      unfolding n using cs(2,3) by (rule phases_session)
    moreover have "hd (concat (map phase_of (new_calls s s'))) = Extraction ?i"
      unfolding n using hd_session [OF cs(2,3), of "[]"] by simp
    moreover have "evaluated_in (new_calls s s') = []"
      unfolding n using cs(2,3) by (rule session_tags(3))
    ultimately show ?thesis
      apply (intro exI [of _ "[]"])
      using il by (simp add: full_iterations_empty)
  next
    case (evaluate_raise k s1 e)
    then show ?thesis by simp
  next
    case (stop k s1 d)
    from one [OF stop(1,2,3,5)] show ?thesis .
  next
    case (no_query k s1 d)
    from one [OF no_query(1,2,3,7)] show ?thesis .
  next
    case (continue k s1 d)
    let ?l3 = "l\<lparr>iteration := ?i, accumulatedKnowledge := accumulatedKnowledge l @ [k],
            currentSearchQuery := the (nextSearchQuery d)\<rparr>"
    let ?s2 = "record_call (EvaluateCall ?i (Return d)) s1"
    from continue(1) obtain cs a where cs: "calls s1 = calls s @ cs" "\<forall>c \<in> set cs. session_call ?i c"
      "KnowledgeStepCall ?i a \<in> set cs"
      by (rule session_calls) simp
    from agentic_loop_calls [OF continue(6)] obtain rest where
      rest: "calls s' = calls ?s2 @ rest"
      by (auto simp add: extends_def)
    have n: "new_calls s s' = cs @ EvaluateCall ?i (Return d) # rest"
      using cs(1) rest by (simp add: new_calls_def record_call_def)
    have n2: "new_calls ?s2 s' = rest"
      using rest by (simp add: new_calls_def)
    have "maxIterations - iteration ?l3 < maxIterations - iteration l"
      using continue(4) by simp
    from less.hyps [OF this continue(6)] obtain ks where
      ks: "accumulatedKnowledge l' = (accumulatedKnowledge l @ [k]) @ ks" "list_all (\<lambda>k. trim k \<noteq> []) ks"
        "hd (concat (map phase_of rest)) = Extraction (?i + 1)"
        "phases rest = full_iterations ?i (iteration l') \<and>
         evaluated_in rest = [?i + 1 ..< iteration l' + 1] \<and>
         length ks = iteration l' - ?i \<or>
         phases rest = full_iterations ?i (iteration l' - 1) @ [Extraction (iteration l')] \<and>
         evaluated_in rest = [?i + 1 ..< iteration l'] \<and>
         length ks + 1 = iteration l' - ?i"
      unfolding n2 by auto
    from agentic_loop_iteration [OF continue(6)] have lt: "?i < iteration l'" by simp
    have p: "phases (new_calls s s') = Extraction ?i # Evaluation ?i # phases rest"
      unfolding n using ks(3) by (intro phases_iteration [OF cs(2,3)]) simp
    have h: "hd (concat (map phase_of (new_calls s s'))) = Extraction ?i"
      unfolding n using hd_session [OF cs(2,3)] by simp
    have e: "evaluated_in (new_calls s s') = ?i # evaluated_in rest"
      unfolding n using session_tags(3) [OF cs(2,3)] by (simp add: evaluated_in_def)
    have f1: "full_iterations (iteration l) (iteration l') =
        Extraction ?i # Evaluation ?i # full_iterations ?i (iteration l')"
      using lt by (intro full_iterations_step) simp
    have f2: "full_iterations (iteration l) (iteration l' - 1) =
        Extraction ?i # Evaluation ?i # full_iterations ?i (iteration l' - 1)"
      using lt by (intro full_iterations_step) simp
    have u1: "[?i ..< iteration l' + 1] = ?i # [?i + 1 ..< iteration l' + 1]"
      using lt by (simp add: upt_conv_Cons)
    have u2: "[?i ..< iteration l'] = ?i # [?i + 1 ..< iteration l']"
      using lt by (simp add: upt_conv_Cons)
    from ks(4) have "phases (new_calls s s') = full_iterations (iteration l) (iteration l') \<and>
      evaluated_in (new_calls s s') = [?i ..< iteration l' + 1] \<and>
      length (k # ks) = iteration l' - iteration l \<or>
      phases (new_calls s s') =
        full_iterations (iteration l) (iteration l' - 1) @ [Extraction (iteration l')] \<and>
      evaluated_in (new_calls s s') = [?i ..< iteration l'] \<and>
      length (k # ks) + 1 = iteration l' - iteration l"
      unfolding p e f1 f2 u1 u2 using lt by auto
    with ks(1,2) h continue(2) show ?thesis
      by (intro exI [of _ "k # ks"]) simp
  qed
qed


lemma phases_extraction:
  assumes "Extraction j \<in> set (phases cs)"
  shows "\<exists>a. KnowledgeStepCall j a \<in> set cs"
proof -
  from assms obtain c where c: "c \<in> set cs" "Extraction j \<in> set (phase_of c)"
    by (auto simp add: phases_def)
  from c(2) obtain a where "c = KnowledgeStepCall j a"
    by (cases c) (simp_all add: phase_of_def)
  with c(1) show ?thesis by blast
qed

lemma evaluated_in_mem: "EvaluateCall j a \<in> set cs \<Longrightarrow> j \<in> set (evaluated_in cs)"
  by (force simp add: evaluated_in_def)

lemma never_sufficient_iterations:
  assumes "agentic_loop w u l s = (r, s')" and "iteration l < maxIterations"
    and "never_sufficient (new_calls s s')"
  shows "\<exists>l' ks. r = Return l' \<and> iteration l' = maxIterations \<and>
     phases (new_calls s s') = full_iterations (iteration l) maxIterations \<and>
     evaluated_in (new_calls s s') = [iteration l + 1 ..< maxIterations + 1] \<and>
     accumulatedKnowledge l' = accumulatedKnowledge l @ ks \<and>
     length ks = maxIterations - iteration l \<and> list_all (\<lambda>k. trim k \<noteq> []) ks"
proof -
  let ?cs = "new_calls s s'"
  from never_sufficient_runs_to_the_bound [OF assms] obtain l' where
    l': "r = Return l'" "iteration l' = maxIterations" by blast
  from assms(1) l'(1) have run: "agentic_loop w u l s = (Return l', s')" by simp
  from agentic_loop_phases [OF run] obtain ks where
    ks: "accumulatedKnowledge l' = accumulatedKnowledge l @ ks" "list_all (\<lambda>k. trim k \<noteq> []) ks"
      "phases ?cs = full_iterations (iteration l) (iteration l') \<and>
       evaluated_in ?cs = [iteration l + 1 ..< iteration l' + 1] \<and>
       length ks = iteration l' - iteration l \<or>
       phases ?cs = full_iterations (iteration l) (iteration l' - 1) @ [Extraction (iteration l')] \<and>
       evaluated_in ?cs = [iteration l + 1 ..< iteration l'] \<and>
       length ks + 1 = iteration l' - iteration l"
    by blast
  have "\<not> (phases ?cs = full_iterations (iteration l) (iteration l' - 1) @ [Extraction (iteration l')] \<and>
       evaluated_in ?cs = [iteration l + 1 ..< iteration l'])"
  proof
    assume a: "phases ?cs = full_iterations (iteration l) (iteration l' - 1) @ [Extraction (iteration l')] \<and>
       evaluated_in ?cs = [iteration l + 1 ..< iteration l']"
    then have "Extraction (iteration l') \<in> set (phases ?cs)" by simp
    then obtain x where "KnowledgeStepCall (iteration l') x \<in> set ?cs"
      using phases_extraction by blast
    with assms(3) have "asks_for_more ?cs (iteration l')"
      by (auto simp add: never_sufficient_def split: call.splits)
    then obtain d where "EvaluateCall (iteration l') (Return d) \<in> set ?cs"
      by (auto simp add: asks_for_more_iff)
    then have "iteration l' \<in> set (evaluated_in ?cs)" by (rule evaluated_in_mem)
    with a show False by simp
  qed
  with ks(3) have "phases ?cs = full_iterations (iteration l) (iteration l') \<and>
       evaluated_in ?cs = [iteration l + 1 ..< iteration l' + 1] \<and>
       length ks = iteration l' - iteration l" by blast
  with l' ks(1,2) show ?thesis by simp
qed

lemma generateText_steps_text:
  "generateText_steps w u l n outs s = (Return k, s') \<Longrightarrow>
   \<exists>t outs' step. knowledgeStep w t u l outs' = Return step \<and> k = step_text step"
proof (induction "5 - n" arbitrary: n outs s rule: less_induct)
  case less
  define a where "a = knowledgeStep w (length (calls s)) u l outs"
  define s1 where "s1 = record_call (KnowledgeStepCall (iteration l) a) s"
  show ?case
  proof (cases a)
    case (Raise e)
    with less.prems show ?thesis
      by (simp add: generateText_steps.simps [of w u l n outs s] a_def [symmetric] Let_def)
  next
    case (Return stp)
    from executeTools_returns [of w "toolCalls stp" s1] obtain newOuts s2 where
      e: "executeTools w (toolCalls stp) s1 = (Return newOuts, s2)" by blast
    show ?thesis
    proof (cases "toolCalls stp \<noteq> [] \<and> n + 1 < 5")
      case True
      with less.prems Return e have "generateText_steps w u l (n + 1) (outs @ newOuts) s2 = (Return k, s')"
        by (simp add: generateText_steps.simps [of w u l n outs s] a_def [symmetric] s1_def Let_def)
      moreover from True have "5 - (n + 1) < 5 - n" by arith
      ultimately show ?thesis using less.hyps by blast
    next
      case False
      with less.prems Return e have "k = step_text stp"
        by (auto simp add: generateText_steps.simps [of w u l n outs s] a_def [symmetric] s1_def Let_def)
      with Return show ?thesis unfolding a_def by blast
    qed
  qed
qed

lemma never_sufficient_iteration:
  assumes "\<forall>c \<in> set cs. session_call j c" and "\<not> isKnowledgeEnough d" and "truthy (nextSearchQuery d)"
    and "never_sufficient rest"
  shows "never_sufficient (cs @ EvaluateCall j (Return d) # rest)"
  unfolding never_sufficient_def
proof
  let ?all = "cs @ EvaluateCall j (Return d) # rest"
  fix c
  assume c: "c \<in> set ?all"
  show "case c of KnowledgeStepCall i a \<Rightarrow> asks_for_more ?all i | _ \<Rightarrow> True"
  proof (cases c)
    case (KnowledgeStepCall i a)
    from c KnowledgeStepCall have "c \<in> set cs \<or> c \<in> set rest" by auto
    then have "asks_for_more ?all i"
    proof
      assume "c \<in> set cs"
      with assms(1) KnowledgeStepCall have "i = j" by (auto simp add: session_call_def)
      with assms(2,3) show ?thesis by (auto simp add: asks_for_more_iff)
    next
      assume "c \<in> set rest"
      with assms(4) KnowledgeStepCall have "asks_for_more rest i"
        by (auto simp add: never_sufficient_def split: call.splits)
      then show ?thesis by (auto simp add: asks_for_more_iff)
    qed
    with KnowledgeStepCall show ?thesis by simp
  qed simp_all
qed

lemma always_more_never_sufficient:
  assumes "always_more w"
  shows "agentic_loop w u l s = (r, s') \<Longrightarrow> never_sufficient (new_calls s s')"
proof (induction "maxIterations - iteration l" arbitrary: l s rule: less_induct)
  case less
  let ?i = "iteration l + 1"
  from assms have ks: "\<forall>t u l outs. \<exists>step. knowledgeStep w t u l outs = Return step"
    and stp: "\<And>t u l outs step. knowledgeStep w t u l outs = Return step \<Longrightarrow> trim (step_text step) \<noteq> []"
    and ev: "\<And>t u l d. evaluate w t u l = Return d \<Longrightarrow> \<not> isKnowledgeEnough d \<and> truthy (nextSearchQuery d)"
    and ev': "\<And>t u l e. evaluate w t u l \<noteq> Raise e"
    unfolding always_more_def by (metis outcome.inject outcome.distinct(1))+
  have nonblank: "trim k \<noteq> []"
    if "generateText_knowledge w u (l\<lparr>iteration := ?i\<rparr>) s = (Return k, s1)" for k s1
    using generateText_steps_text [of w u "l\<lparr>iteration := ?i\<rparr>" 0 "[]" s k s1] that stp
    by (auto simp add: generateText_knowledge_def)
  from less.prems show ?case
  proof (cases rule: agentic_loop_cases)
    case (extract_raise e)
    with generateText_steps_returns [OF ks, of u "l\<lparr>iteration := ?i\<rparr>" 0 "[]" s]
    show ?thesis by (simp add: generateText_knowledge_def)
  next
    case (blank k)
    with nonblank show ?thesis by blast
  next
    case (evaluate_raise k s1 e)
    with ev' show ?thesis by blast
  next
    case (stop k s1 d)
    from stop(1) obtain cs a where cs: "calls s1 = calls s @ cs" "\<forall>c \<in> set cs. session_call ?i c"
      by (rule session_calls) simp
    have n: "new_calls s s' = cs @ EvaluateCall ?i (Return d) # []"
      using cs(1) stop(3) by (simp add: new_calls_def record_call_def)
    from ev [OF stop(6)] show ?thesis
      unfolding n by (intro never_sufficient_iteration [OF cs(2)]) (simp_all add: never_sufficient_def)
  next
    case (no_query k s1 d)
    with ev [OF no_query(8)] show ?thesis by simp
  next
    case (continue k s1 d)
    let ?l3 = "l\<lparr>iteration := ?i, accumulatedKnowledge := accumulatedKnowledge l @ [k],
            currentSearchQuery := the (nextSearchQuery d)\<rparr>"
    let ?s2 = "record_call (EvaluateCall ?i (Return d)) s1"
    from continue(1) obtain cs a where cs: "calls s1 = calls s @ cs" "\<forall>c \<in> set cs. session_call ?i c"
      by (rule session_calls) simp
    from agentic_loop_calls [OF continue(6)] obtain rest where
      rest: "calls s' = calls ?s2 @ rest"
      by (auto simp add: extends_def)
    have n: "new_calls s s' = cs @ EvaluateCall ?i (Return d) # rest"
      using cs(1) rest by (simp add: new_calls_def record_call_def)
    have n2: "new_calls ?s2 s' = rest"
      using rest by (simp add: new_calls_def)
    have "maxIterations - iteration ?l3 < maxIterations - iteration l"
      using continue(4) by simp
    from less.hyps [OF this continue(6)] have "never_sufficient rest"
      unfolding n2 .
    with continue(3,5) show ?thesis
      unfolding n by (intro never_sufficient_iteration [OF cs(2)])
  qed
qed

lemma rewriteQuery_calls:
  "rewriteQuery w u s = (q, s') \<Longrightarrow>
   \<exists>rw. calls s' = calls s @ rw \<and> concat (map phase_of rw) = [] \<and> evaluated_in rw = []"
  by (auto simp add: rewriteQuery_def Let_def send_def record_call_def phase_of_def evaluated_in_def
      split: if_splits outcome.splits)

lemma finalAnswer_calls:
  "calls (finalAnswer w u l s) = calls s @ [SynthCall (synthesize w (length (calls s)) u l)]"
  by (simp add: finalAnswer_eq Let_def)


lemma full_iterations_five:
  "full_iterations 0 maxIterations =
     [Extraction 1, Evaluation 1, Extraction 2, Evaluation 2, Extraction 3, Evaluation 3,
      Extraction 4, Evaluation 4, Extraction 5, Evaluation 5]"
  by (simp add: full_iterations_def maxIterations_def upt_conv_Cons)

lemma upt_five: "[0 + 1 ..< maxIterations + 1] = [1, 2, 3, 4, 5]"
  by (simp add: maxIterations_def upt_conv_Cons)

lemma run_never_sufficient:
  assumes "messages b \<noteq> []"
    and "rewriteQuery w (content (last (messages b))) (b\<lparr>allFiles := []\<rparr>) = (q, b1)"
    and "agentic_loop w (content (last (messages b)))
           \<lparr>iteration = 0, currentSearchQuery = q, accumulatedKnowledge = []\<rparr> b1 = (rb, b2)"
    and "never_sufficient (new_calls b1 b2)"
  shows "\<exists>l'. rb = Return l' \<and> iteration l' = maxIterations \<and> length (accumulatedKnowledge l') = 5 \<and>
     streamWithMultiStepTools w b =
       (Return (map snd (allFiles (finalAnswer w (content (last (messages b))) l' b2))),
        finalAnswer w (content (last (messages b))) l' b2) \<and>
     new_calls b2 (finalAnswer w (content (last (messages b))) l' b2) =
       [SynthCall (synthesize w (length (calls b2)) (content (last (messages b))) l')]"
proof -
  let ?l0 = "\<lparr>iteration = 0, currentSearchQuery = q, accumulatedKnowledge = []\<rparr>"
  have "iteration ?l0 < maxIterations" by (simp add: maxIterations_def)
  from never_sufficient_iterations [OF assms(3) this assms(4)] obtain l' ks where
    l': "rb = Return l'" "iteration l' = maxIterations" "accumulatedKnowledge l' = ks" "length ks = 5"
    by (auto simp add: maxIterations_def)
  from streamWithMultiStepTools_eq [OF assms(1,2,3)] l'(1)
  have "streamWithMultiStepTools w b =
       (Return (map snd (allFiles (finalAnswer w (content (last (messages b))) l' b2))),
        finalAnswer w (content (last (messages b))) l' b2)" by simp
  moreover have "new_calls b2 (finalAnswer w (content (last (messages b))) l' b2) =
       [SynthCall (synthesize w (length (calls b2)) (content (last (messages b))) l')]"
    by (simp add: new_calls_def finalAnswer_calls)
  ultimately show ?thesis using l' by simp
qed

lemma run_always_more:
  assumes "always_more w" and "messages b \<noteq> []"
  shows "\<exists>files b'. streamWithMultiStepTools w b = (Return files, b') \<and>
     phases (new_calls b b') = full_iterations 0 maxIterations @ [Synthesis] \<and>
     evaluated_in (new_calls b b') = [0 + 1 ..< maxIterations + 1]"
proof -
  let ?u = "content (last (messages b))"
  obtain q b1 where rw: "rewriteQuery w ?u (b\<lparr>allFiles := []\<rparr>) = (q, b1)"
    by (cases "rewriteQuery w ?u (b\<lparr>allFiles := []\<rparr>)")
  let ?l0 = "\<lparr>iteration = 0, currentSearchQuery = q, accumulatedKnowledge = []\<rparr>"
  obtain rb b2 where run: "agentic_loop w ?u ?l0 b1 = (rb, b2)"
    by (cases "agentic_loop w ?u ?l0 b1")
  from rewriteQuery_calls [OF rw] obtain rc where
    rc: "calls b1 = calls b @ rc" "concat (map phase_of rc) = []" "evaluated_in rc = []"
    by auto
  from agentic_loop_calls [OF run] obtain lc where lc: "calls b2 = calls b1 @ lc"
    by (auto simp add: extends_def)
  then have n1: "new_calls b1 b2 = lc" by (simp add: new_calls_def)
  have ns: "never_sufficient (new_calls b1 b2)"
    using assms(1) run by (rule always_more_never_sufficient)
  have "iteration ?l0 < maxIterations" by (simp add: maxIterations_def)
  from never_sufficient_iterations [OF run this ns] obtain l' where
    l': "rb = Return l'" "phases lc = full_iterations 0 maxIterations"
      "evaluated_in lc = [0 + 1 ..< maxIterations + 1]"
    unfolding n1 by auto
  define b' where "b' = finalAnswer w ?u l' b2"
  from streamWithMultiStepTools_eq [OF assms(2) rw run] l'(1)
  have st: "streamWithMultiStepTools w b = (Return (map snd (allFiles b')), b')"
    by (simp add: b'_def)
  have n: "new_calls b b' = rc @ lc @ [SynthCall (synthesize w (length (calls b2)) ?u l')]"
    using rc(1) lc by (simp add: new_calls_def b'_def finalAnswer_calls)
  let ?T = "concat (map phase_of lc)"
  from l'(2) have r: "remdups_adj ?T = full_iterations 0 maxIterations"
    by (simp add: phases_def)
  then have "last (remdups_adj ?T) = Evaluation 5"
    by (simp add: full_iterations_five)
  then have "last ?T \<noteq> hd [Synthesis]" by simp
  then have "remdups_adj (?T @ [Synthesis]) = remdups_adj ?T @ remdups_adj [Synthesis]"
    by (intro remdups_adj_append') blast
  with r have "remdups_adj (?T @ [Synthesis]) = full_iterations 0 maxIterations @ [Synthesis]"
    by simp
  moreover have "concat (map phase_of (new_calls b b')) = concat (map phase_of rc) @ ?T @ [Synthesis]"
    unfolding n by (simp add: phase_of_def)
  ultimately have "phases (new_calls b b') = full_iterations 0 maxIterations @ [Synthesis]"
    unfolding phases_def using rc(2) by simp
  moreover from rc(3) l'(3) have "evaluated_in (new_calls b b') = [0 + 1 ..< maxIterations + 1]"
    unfolding n by (simp add: evaluated_in_def)
  ultimately show ?thesis using st by blast
qed

subsection \<open>No search target\<close>

text \<open>
  Without a selected target every tool call of a step ends in the same tool error and
  changes nothing, so the loop sends no event and calls no search service.
\<close>

lemma executeTools_no_target:
  "selectedRag (agentState s) = [] \<Longrightarrow>
   executeTools w qs s = (Return (map (\<lambda>q. ToolError (Error noRagMessage)) qs), s)"
  by (induction qs) (simp_all add: searchTool_def performSearch_def)

lemma generateText_steps_no_target:
  assumes "selectedRag (agentState s) = []"
    and "knowledgeStep w (length (calls s)) u l outs = Return step"
  shows "generateText_steps w u l n outs s =
     (if toolCalls step \<noteq> [] \<and> n + 1 < 5
      then generateText_steps w u l (n + 1)
             (outs @ map (\<lambda>q. ToolError (Error noRagMessage)) (toolCalls step))
             (record_call (KnowledgeStepCall (iteration l) (Return step)) s)
      else (Return (step_text step), record_call (KnowledgeStepCall (iteration l) (Return step)) s))"
proof -
  from assms(1) have "selectedRag (agentState (record_call (KnowledgeStepCall (iteration l) (Return step)) s)) = []"
    by (simp add: record_call_def)
  from executeTools_no_target [OF this, of w "toolCalls step"] assms(2) show ?thesis
    by (subst generateText_steps.simps) (simp add: Let_def)
qed

lemma agentic_loop_no_target_quiet:
  assumes "agentic_loop w u l s = (r, s')" and "selectedRag (agentState s) = []"
  shows "sent s' = sent s \<and> agentState s' = agentState s \<and> allFiles s' = allFiles s \<and>
         (\<forall>c \<in> set (new_calls s s'). \<not> is_search_call c)"
proof -
  have "selectedRag (agentState s) = [] \<longrightarrow>
      sent s' = sent s \<and> agentState s' = agentState s \<and> allFiles s' = allFiles s \<and>
      extends (\<lambda>c. \<not> is_search_call c) s s'"
  proof (rule agentic_loop_rel
      [of "\<lambda>i a b. selectedRag (agentState a) = [] \<longrightarrow>
             sent b = sent a \<and> agentState b = agentState a \<and> allFiles b = allFiles a \<and>
             extends (\<lambda>c. \<not> is_search_call c) a b" w u l s r s'])
    show "selectedRag (agentState a) = [] \<longrightarrow>
          sent c = sent a \<and> agentState c = agentState a \<and> allFiles c = allFiles a \<and>
          extends (\<lambda>c. \<not> is_search_call c) a c"
      if "selectedRag (agentState a) = [] \<longrightarrow>
          sent b = sent a \<and> agentState b = agentState a \<and> allFiles b = allFiles a \<and>
          extends (\<lambda>c. \<not> is_search_call c) a b"
        "selectedRag (agentState b) = [] \<longrightarrow>
          sent c = sent b \<and> agentState c = agentState b \<and> allFiles c = allFiles b \<and>
          extends (\<lambda>c. \<not> is_search_call c) b c" for i a b c
    proof
      assume h: "selectedRag (agentState a) = []"
      with that(1) have 1: "sent b = sent a" "agentState b = agentState a" "allFiles b = allFiles a"
        "extends (\<lambda>c. \<not> is_search_call c) a b" by simp_all
      with h that(2) have 2: "sent c = sent b" "agentState c = agentState b" "allFiles c = allFiles b"
        "extends (\<lambda>c. \<not> is_search_call c) b c" by simp_all
      from 1(4) 2(4) have "extends (\<lambda>c. \<not> is_search_call c) a c" by (rule extends_trans)
      with 1 2 show "sent c = sent a \<and> agentState c = agentState a \<and> allFiles c = allFiles a \<and>
          extends (\<lambda>c. \<not> is_search_call c) a c" by simp
    qed
    show "selectedRag (agentState s) = [] \<longrightarrow>
          sent s' = sent s \<and> agentState s' = agentState s \<and> allFiles s' = allFiles s \<and>
          extends (\<lambda>c. \<not> is_search_call c) s s'"
      if "performSearch w q s = (r, s')" for i q s r s'
      using that by (auto simp add: performSearch_def extends_refl)
  qed (simp_all add: extends_refl assms(1) record_call_def extends_def is_search_call_def)
  with assms(2) show ?thesis using extends_new_calls by blast
qed


section \<open>The claims\<close>

subsection \<open>The loop\<close>

text \<open>
  Claim C1. \<open>streamWithMultiStepTools\<close> starts the loop with \<open>iteration = 0\<close>. Whatever the
  services answer, every generation call of the loop is made in an iteration between 1
  and \<open>maxIterations = 5\<close>, and a loop that returns with the counter at \<open>n\<close> has counted
  between 1 and 5 iterations and has gone through them one after the other: in each of
  the iterations 1 to \<open>n\<close> an extraction session and then one evaluation, but for a last
  iteration that ends on blank knowledge before its evaluation, and one entry of
  knowledge added per evaluation. \<open>never_sufficient\<close> reads the claim's condition off the
  calls of the execution: in every iteration that was begun the evaluator returned a
  decision that is not sufficient and supplies a next query (the code's test
  \<^verbatim>\<open>if (nextSearchQuery)\<close>, which an empty string fails). Then the loop returns with
  exactly 5 iterations counted, and its calls are those of five full iterations:
  extraction 1, evaluation 1, up to extraction 5, evaluation 5, five evaluation calls
  in all, and five entries of knowledge, none blank, added. In the iteration that
  reaches 5 the loop stops with whatever decision the evaluator returns. The run then
  goes on to the synthesis: the method returns, the call after the fifth evaluation is the
  call of the synthesis with the five entries, and it is the only one. And the condition
  can be met: with services that always answer with knowledge and always ask for more
  (\<open>always_more\<close>) the method does return, after five iterations and the synthesis.
\<close>

theorem iteration_never_exceeds_five:
  "maxIterations = 5 \<and>
   (agentic_loop w u l s = (r, s') \<and> iteration l = 0 \<longrightarrow>
      (\<forall>c \<in> set (new_calls s s'). within_iterations 0 maxIterations c) \<and>
      (\<forall>l'. r = Return l' \<longrightarrow>
         1 \<le> iteration l' \<and> iteration l' \<le> maxIterations \<and>
         (phases (new_calls s s') = full_iterations 0 (iteration l') \<and>
          evaluated_in (new_calls s s') = [1 ..< iteration l' + 1] \<and>
          length (accumulatedKnowledge l') = length (accumulatedKnowledge l) + iteration l' \<or>
          phases (new_calls s s') =
            full_iterations 0 (iteration l' - 1) @ [Extraction (iteration l')] \<and>
          evaluated_in (new_calls s s') = [1 ..< iteration l'] \<and>
          length (accumulatedKnowledge l') + 1 = length (accumulatedKnowledge l) + iteration l')) \<and>
      (never_sufficient (new_calls s s') \<longrightarrow>
         (\<exists>l' ks. r = Return l' \<and> iteration l' = maxIterations \<and>
            phases (new_calls s s') =
              [Extraction 1, Evaluation 1, Extraction 2, Evaluation 2, Extraction 3, Evaluation 3,
               Extraction 4, Evaluation 4, Extraction 5, Evaluation 5] \<and>
            evaluated_in (new_calls s s') = [1, 2, 3, 4, 5] \<and>
            accumulatedKnowledge l' = accumulatedKnowledge l @ ks \<and> length ks = 5 \<and>
            list_all (\<lambda>k. trim k \<noteq> []) ks))) \<and>
   (generateText_knowledge w u (la\<lparr>iteration := iteration la + 1\<rparr>) sa = (Return k, s1) \<and>
    trim k \<noteq> [] \<and>
    evaluate w (length (calls s1)) u
      (la\<lparr>iteration := iteration la + 1, accumulatedKnowledge := accumulatedKnowledge la @ [k]\<rparr>) =
      Return d \<and>
    iteration la + 1 = maxIterations \<longrightarrow>
      agentic_loop w u la sa =
        (Return (la\<lparr>iteration := iteration la + 1,
                     accumulatedKnowledge := accumulatedKnowledge la @ [k]\<rparr>),
         record_call (EvaluateCall (iteration la + 1) (Return d)) s1)) \<and>
   (messages b \<noteq> [] \<and>
    rewriteQuery w (content (last (messages b))) (b\<lparr>allFiles := []\<rparr>) = (q, b1) \<and>
    agentic_loop w (content (last (messages b)))
      \<lparr>iteration = 0, currentSearchQuery = q, accumulatedKnowledge = []\<rparr> b1 = (rb, b2) \<and>
    never_sufficient (new_calls b1 b2) \<longrightarrow>
      (\<exists>l'. rb = Return l' \<and> iteration l' = maxIterations \<and>
         length (accumulatedKnowledge l') = 5 \<and>
         streamWithMultiStepTools w b =
           (Return (map snd (allFiles (finalAnswer w (content (last (messages b))) l' b2))),
            finalAnswer w (content (last (messages b))) l' b2) \<and>
         new_calls b2 (finalAnswer w (content (last (messages b))) l' b2) =
           [SynthCall (synthesize w (length (calls b2)) (content (last (messages b))) l')])) \<and>
   (always_more w \<and> messages b \<noteq> [] \<longrightarrow>
      (\<exists>files b'. streamWithMultiStepTools w b = (Return files, b') \<and>
         phases (new_calls b b') =
           [Extraction 1, Evaluation 1, Extraction 2, Evaluation 2, Extraction 3, Evaluation 3,
            Extraction 4, Evaluation 4, Extraction 5, Evaluation 5, Synthesis] \<and>
         evaluated_in (new_calls b b') = [1, 2, 3, 4, 5]))"
proof (intro conjI impI allI ballI)
  show "maxIterations = 5" by (simp add: maxIterations_def)
next
  fix c
  assume a: "agentic_loop w u l s = (r, s') \<and> iteration l = 0" and c: "c \<in> set (new_calls s s')"
  from a have "extends (within_iterations 0 (max maxIterations 1)) s s'"
    using agentic_loop_calls [of w u l s r s'] by simp
  with c show "within_iterations 0 maxIterations c"
    using extends_new_calls by (fastforce simp add: maxIterations_def)
next
  fix l'
  assume a: "agentic_loop w u l s = (r, s') \<and> iteration l = 0" and r: "r = Return l'"
  with agentic_loop_iteration [of w u l s l' s']
  show "1 \<le> iteration l'" and "iteration l' \<le> maxIterations"
    by (simp_all add: maxIterations_def)
  from a r have run: "agentic_loop w u l s = (Return l', s')" and z: "iteration l = 0"
    by simp_all
  from agentic_loop_phases [OF run] obtain ks where
    ks: "accumulatedKnowledge l' = accumulatedKnowledge l @ ks"
      "phases (new_calls s s') = full_iterations (iteration l) (iteration l') \<and>
       evaluated_in (new_calls s s') = [iteration l + 1 ..< iteration l' + 1] \<and>
       length ks = iteration l' - iteration l \<or>
       phases (new_calls s s') =
         full_iterations (iteration l) (iteration l' - 1) @ [Extraction (iteration l')] \<and>
       evaluated_in (new_calls s s') = [iteration l + 1 ..< iteration l'] \<and>
       length ks + 1 = iteration l' - iteration l"
    by blast
  from ks(2) show "phases (new_calls s s') = full_iterations 0 (iteration l') \<and>
          evaluated_in (new_calls s s') = [1 ..< iteration l' + 1] \<and>
          length (accumulatedKnowledge l') = length (accumulatedKnowledge l) + iteration l' \<or>
          phases (new_calls s s') =
            full_iterations 0 (iteration l' - 1) @ [Extraction (iteration l')] \<and>
          evaluated_in (new_calls s s') = [1 ..< iteration l'] \<and>
          length (accumulatedKnowledge l') + 1 = length (accumulatedKnowledge l) + iteration l'"
    unfolding ks(1) z by auto
next
  assume a: "agentic_loop w u l s = (r, s') \<and> iteration l = 0"
    and n: "never_sufficient (new_calls s s')"
  from a have run: "agentic_loop w u l s = (r, s')" and z: "iteration l = 0"
    by simp_all
  from z have "iteration l < maxIterations" by (simp add: maxIterations_def)
  from never_sufficient_iterations [OF run this n]
  show "\<exists>l' ks. r = Return l' \<and> iteration l' = maxIterations \<and>
            phases (new_calls s s') =
              [Extraction 1, Evaluation 1, Extraction 2, Evaluation 2, Extraction 3, Evaluation 3,
               Extraction 4, Evaluation 4, Extraction 5, Evaluation 5] \<and>
            evaluated_in (new_calls s s') = [1, 2, 3, 4, 5] \<and>
            accumulatedKnowledge l' = accumulatedKnowledge l @ ks \<and> length ks = 5 \<and>
            list_all (\<lambda>k. trim k \<noteq> []) ks"
    unfolding z full_iterations_five upt_five by (simp add: maxIterations_def)
next
  assume a: "generateText_knowledge w u (la\<lparr>iteration := iteration la + 1\<rparr>) sa = (Return k, s1) \<and>
    trim k \<noteq> [] \<and>
    evaluate w (length (calls s1)) u
      (la\<lparr>iteration := iteration la + 1, accumulatedKnowledge := accumulatedKnowledge la @ [k]\<rparr>) =
      Return d \<and>
    iteration la + 1 = maxIterations"
  then have g: "generateText_knowledge w u (la\<lparr>iteration := iteration la + 1\<rparr>) sa = (Return k, s1)"
    and t: "trim k \<noteq> []"
    and e: "evaluate w (length (calls s1)) u
      (la\<lparr>iteration := iteration la + 1, accumulatedKnowledge := accumulatedKnowledge la @ [k]\<rparr>) =
      Return d"
    by blast+
  from a have m: "maxIterations \<le> iteration la + 1" by simp
  show "agentic_loop w u la sa =
        (Return (la\<lparr>iteration := iteration la + 1,
                     accumulatedKnowledge := accumulatedKnowledge la @ [k]\<rparr>),
         record_call (EvaluateCall (iteration la + 1) (Return d)) s1)"
    unfolding agentic_loop_evaluated [OF g t refl refl refl] e using m by simp
next
  assume "messages b \<noteq> [] \<and>
    rewriteQuery w (content (last (messages b))) (b\<lparr>allFiles := []\<rparr>) = (q, b1) \<and>
    agentic_loop w (content (last (messages b)))
      \<lparr>iteration = 0, currentSearchQuery = q, accumulatedKnowledge = []\<rparr> b1 = (rb, b2) \<and>
    never_sufficient (new_calls b1 b2)"
  then have "messages b \<noteq> []"
    and "rewriteQuery w (content (last (messages b))) (b\<lparr>allFiles := []\<rparr>) = (q, b1)"
    and "agentic_loop w (content (last (messages b)))
      \<lparr>iteration = 0, currentSearchQuery = q, accumulatedKnowledge = []\<rparr> b1 = (rb, b2)"
    and "never_sufficient (new_calls b1 b2)"
    by blast+
  then show "\<exists>l'. rb = Return l' \<and> iteration l' = maxIterations \<and>
         length (accumulatedKnowledge l') = 5 \<and>
         streamWithMultiStepTools w b =
           (Return (map snd (allFiles (finalAnswer w (content (last (messages b))) l' b2))),
            finalAnswer w (content (last (messages b))) l' b2) \<and>
         new_calls b2 (finalAnswer w (content (last (messages b))) l' b2) =
           [SynthCall (synthesize w (length (calls b2)) (content (last (messages b))) l')]"
    by (rule run_never_sufficient)
next
  assume "always_more w \<and> messages b \<noteq> []"
  then have "always_more w" "messages b \<noteq> []" by blast+
  from run_always_more [OF this]
  show "\<exists>files b'. streamWithMultiStepTools w b = (Return files, b') \<and>
         phases (new_calls b b') =
           [Extraction 1, Evaluation 1, Extraction 2, Evaluation 2, Extraction 3, Evaluation 3,
            Extraction 4, Evaluation 4, Extraction 5, Evaluation 5, Synthesis] \<and>
         evaluated_in (new_calls b b') = [1, 2, 3, 4, 5]"
    unfolding full_iterations_five upt_five by simp
qed


text \<open>
  An evaluator that always asks for more: five iterations, ten generation calls, five
  entries of knowledge, then the synthesis; and started in the fifth iteration the loop
  stops although the decision is not sufficient.
\<close>

theorem iteration_never_exceeds_five_witness:
  "iteration start_vars = 0 \<and>
   never_sufficient (new_calls demo_agent
      (snd (agentic_loop (loop_world ''fact'' more) ''policy X'' start_vars demo_agent))) \<and>
   list_all (within_iterations 0 maxIterations)
     (new_calls demo_agent
        (snd (agentic_loop (loop_world ''fact'' more) ''policy X'' start_vars demo_agent))) \<and>
   fst (agentic_loop (loop_world ''fact'' more) ''policy X'' start_vars demo_agent) =
     Return \<lparr>iteration = 5, currentSearchQuery = ''clause Y'',
             accumulatedKnowledge = [''fact'', ''fact'', ''fact'', ''fact'', ''fact'']\<rparr> \<and>
   new_calls demo_agent
     (snd (agentic_loop (loop_world ''fact'' more) ''policy X'' start_vars demo_agent)) =
     [KnowledgeStepCall 1 (Return \<lparr>step_text = ''fact'', toolCalls = []\<rparr>), EvaluateCall 1 (Return (more 1)),
      KnowledgeStepCall 2 (Return \<lparr>step_text = ''fact'', toolCalls = []\<rparr>), EvaluateCall 2 (Return (more 2)),
      KnowledgeStepCall 3 (Return \<lparr>step_text = ''fact'', toolCalls = []\<rparr>), EvaluateCall 3 (Return (more 3)),
      KnowledgeStepCall 4 (Return \<lparr>step_text = ''fact'', toolCalls = []\<rparr>), EvaluateCall 4 (Return (more 4)),
      KnowledgeStepCall 5 (Return \<lparr>step_text = ''fact'', toolCalls = []\<rparr>), EvaluateCall 5 (Return (more 5))] \<and>
   phases (new_calls demo_agent
      (snd (agentic_loop (loop_world ''fact'' more) ''policy X'' start_vars demo_agent))) =
     [Extraction 1, Evaluation 1, Extraction 2, Evaluation 2, Extraction 3, Evaluation 3,
      Extraction 4, Evaluation 4, Extraction 5, Evaluation 5] \<and>
   evaluated_in (new_calls demo_agent
      (snd (agentic_loop (loop_world ''fact'' more) ''policy X'' start_vars demo_agent))) =
     [1, 2, 3, 4, 5] \<and>
   fst (agentic_loop (loop_world ''fact'' more) ''policy X'' (start_vars\<lparr>iteration := 4\<rparr>) demo_agent) =
     Return (start_vars\<lparr>iteration := 5, accumulatedKnowledge := [''fact'']\<rparr>) \<and>
   always_more (loop_world ''fact'' more) \<and> messages demo_agent \<noteq> [] \<and>
   (\<exists>files. fst (streamWithMultiStepTools (loop_world ''fact'' more) demo_agent) = Return files) \<and>
   phases (calls (snd (streamWithMultiStepTools (loop_world ''fact'' more) demo_agent))) =
     [Extraction 1, Evaluation 1, Extraction 2, Evaluation 2, Extraction 3, Evaluation 3,
      Extraction 4, Evaluation 4, Extraction 5, Evaluation 5, Synthesis] \<and>
   last (calls (snd (streamWithMultiStepTools (loop_world ''fact'' more) demo_agent))) =
     SynthCall [TextDelta ''answer''] \<and>
   sent (snd (streamWithMultiStepTools (loop_world ''fact'' more) demo_agent)) =
     [TextDeltaEvent ''answer'']"
proof -
  define W where "W = loop_world ''fact'' more"
  define r where "r = fst (agentic_loop W ''policy X'' start_vars demo_agent)"
  define s' where "s' = snd (agentic_loop W ''policy X'' start_vars demo_agent)"
  define la where "la = start_vars\<lparr>iteration := 4\<rparr>"
  define s1 where "s1 = snd (generateText_knowledge W ''policy X'' (la\<lparr>iteration := iteration la + 1\<rparr>) demo_agent)"
  define q where "q = ''What is policy X?''"
  define rb where "rb = fst (agentic_loop W q
      \<lparr>iteration = 0, currentSearchQuery = q, accumulatedKnowledge = []\<rparr> demo_agent)"
  define b2 where "b2 = snd (agentic_loop W q
      \<lparr>iteration = 0, currentSearchQuery = q, accumulatedKnowledge = []\<rparr> demo_agent)"
  define st where "st = streamWithMultiStepTools W demo_agent"
  note ev = W_def r_def s'_def la_def s1_def loop_eval more_def
  have run: "agentic_loop W ''policy X'' start_vars demo_agent = (r, s')"
    by (simp add: r_def s'_def)
  have z: "iteration start_vars = 0" by (simp add: start_vars_def)
  have cs: "new_calls demo_agent s' =
     [KnowledgeStepCall 1 (Return \<lparr>step_text = ''fact'', toolCalls = []\<rparr>), EvaluateCall 1 (Return (more 1)),
      KnowledgeStepCall 2 (Return \<lparr>step_text = ''fact'', toolCalls = []\<rparr>), EvaluateCall 2 (Return (more 2)),
      KnowledgeStepCall 3 (Return \<lparr>step_text = ''fact'', toolCalls = []\<rparr>), EvaluateCall 3 (Return (more 3)),
      KnowledgeStepCall 4 (Return \<lparr>step_text = ''fact'', toolCalls = []\<rparr>), EvaluateCall 4 (Return (more 4)),
      KnowledgeStepCall 5 (Return \<lparr>step_text = ''fact'', toolCalls = []\<rparr>), EvaluateCall 5 (Return (more 5))]"
    by (simp add: ev new_calls_def)
  have n: "never_sufficient (new_calls demo_agent s')"
    unfolding cs by (simp add: never_sufficient_def asks_for_more_def more_def truthy_def)
  have res: "r = Return \<lparr>iteration = 5, currentSearchQuery = ''clause Y'',
             accumulatedKnowledge = [''fact'', ''fact'', ''fact'', ''fact'', ''fact'']\<rparr>"
    by (simp add: ev)
  have g: "generateText_knowledge W ''policy X'' (la\<lparr>iteration := iteration la + 1\<rparr>) demo_agent =
      (Return ''fact'', s1)"
    by (simp add: ev)
  have t: "trim ''fact'' \<noteq> []" by (simp add: trim_def is_space_def)
  have e: "evaluate W (length (calls s1)) ''policy X''
      (la\<lparr>iteration := iteration la + 1, accumulatedKnowledge := accumulatedKnowledge la @ [''fact'']\<rparr>) =
      Return (more 5)"
    by (simp add: ev)
  have m: "iteration la + 1 = maxIterations" by (simp add: ev)
  have am: "always_more W"
    by (simp add: W_def loop_world_def always_more_def more_def truthy_def trim_def is_space_def)
  have ms: "messages demo_agent \<noteq> []" "content (last (messages demo_agent)) = q"
    by (simp_all add: demo_agent_def q_def)
  have rw: "rewriteQuery W (content (last (messages demo_agent))) (demo_agent\<lparr>allFiles := []\<rparr>) =
      (q, demo_agent)"
    by (simp add: rewriteQuery_def previousUserMessages_def demo_agent_def q_def)
  have runb: "agentic_loop W (content (last (messages demo_agent)))
      \<lparr>iteration = 0, currentSearchQuery = q, accumulatedKnowledge = []\<rparr> demo_agent = (rb, b2)"
    unfolding ms(2) by (simp add: rb_def b2_def)
  have nb: "never_sufficient (new_calls demo_agent b2)"
    by (simp add: b2_def q_def W_def loop_eval more_def new_calls_def never_sufficient_def
        asks_for_more_def)
  note inst = iteration_never_exceeds_five [of W "''policy X''" start_vars demo_agent r s' la demo_agent
      "''fact''" s1 "more 5" demo_agent q demo_agent rb b2]
  from inst run z n
  have 1: "\<forall>c \<in> set (new_calls demo_agent s'). within_iterations 0 maxIterations c"
    and 2: "\<exists>l' ks. r = Return l' \<and> iteration l' = maxIterations \<and>
            phases (new_calls demo_agent s') =
              [Extraction 1, Evaluation 1, Extraction 2, Evaluation 2, Extraction 3, Evaluation 3,
               Extraction 4, Evaluation 4, Extraction 5, Evaluation 5] \<and>
            evaluated_in (new_calls demo_agent s') = [1, 2, 3, 4, 5] \<and>
            accumulatedKnowledge l' = accumulatedKnowledge start_vars @ ks \<and> length ks = 5 \<and>
            list_all (\<lambda>k. trim k \<noteq> []) ks"
    by blast+
  from inst g t e m
  have 3: "agentic_loop W ''policy X'' la demo_agent =
        (Return (la\<lparr>iteration := iteration la + 1,
                     accumulatedKnowledge := accumulatedKnowledge la @ [''fact'']\<rparr>),
         record_call (EvaluateCall (iteration la + 1) (Return (more 5))) s1)"
    by blast
  from inst ms(1) rw runb nb
  have 4: "\<exists>l'. rb = Return l' \<and> iteration l' = maxIterations \<and>
         length (accumulatedKnowledge l') = 5 \<and>
         streamWithMultiStepTools W demo_agent =
           (Return (map snd (allFiles (finalAnswer W (content (last (messages demo_agent))) l' b2))),
            finalAnswer W (content (last (messages demo_agent))) l' b2) \<and>
         new_calls b2 (finalAnswer W (content (last (messages demo_agent))) l' b2) =
           [SynthCall (synthesize W (length (calls b2)) (content (last (messages demo_agent))) l')]"
    by blast
  from inst am ms(1)
  have 5: "\<exists>files b'. streamWithMultiStepTools W demo_agent = (Return files, b') \<and>
         phases (new_calls demo_agent b') =
           [Extraction 1, Evaluation 1, Extraction 2, Evaluation 2, Extraction 3, Evaluation 3,
            Extraction 4, Evaluation 4, Extraction 5, Evaluation 5, Synthesis] \<and>
         evaluated_in (new_calls demo_agent b') = [1, 2, 3, 4, 5]"
    by blast
  have c0: "new_calls demo_agent x = calls x" for x
    by (simp add: new_calls_def demo_agent_def)
  from 1 have w1: "list_all (within_iterations 0 maxIterations) (new_calls demo_agent s')"
    by (simp add: list_all_iff)
  from 2 have w2: "phases (new_calls demo_agent s') =
              [Extraction 1, Evaluation 1, Extraction 2, Evaluation 2, Extraction 3, Evaluation 3,
               Extraction 4, Evaluation 4, Extraction 5, Evaluation 5]"
    and w3: "evaluated_in (new_calls demo_agent s') = [1, 2, 3, 4, 5]"
    by blast+
  from 3 have w4: "fst (agentic_loop W ''policy X'' (start_vars\<lparr>iteration := 4\<rparr>) demo_agent) =
     Return (start_vars\<lparr>iteration := 5, accumulatedKnowledge := [''fact'']\<rparr>)"
    by (simp add: la_def start_vars_def)
  from 5 have w5: "\<exists>files. fst (streamWithMultiStepTools W demo_agent) = Return files"
    and w6: "phases (calls (snd (streamWithMultiStepTools W demo_agent))) =
     [Extraction 1, Evaluation 1, Extraction 2, Evaluation 2, Extraction 3, Evaluation 3,
      Extraction 4, Evaluation 4, Extraction 5, Evaluation 5, Synthesis]"
    by (auto simp add: c0)
  from 4 obtain l' where l': "rb = Return l'"
    "snd (streamWithMultiStepTools W demo_agent) = finalAnswer W (content (last (messages demo_agent))) l' b2"
    by auto
  have sy: "synthesize W t' u' x' = [TextDelta ''answer'']" for t' u' x'
    by (simp add: W_def loop_world_def)
  have w7: "last (calls (snd (streamWithMultiStepTools W demo_agent))) = SynthCall [TextDelta ''answer'']"
    unfolding l'(2) by (simp add: finalAnswer_eq Let_def sy trim_def is_space_def)
  have "sent b2 = []"
    by (simp add: b2_def q_def W_def loop_eval)
  then have w8: "sent (snd (streamWithMultiStepTools W demo_agent)) = [TextDeltaEvent ''answer'']"
    unfolding l'(2) by (simp add: finalAnswer_eq Let_def sy trim_def is_space_def)
  show ?thesis
    using z n w1 res cs w2 w3 w4 am ms(1) w5 w6 w7 w8
    unfolding W_def r_def s'_def by (intro conjI) blast+
qed

text \<open>
  Claim C2. If, in an execution of the loop, the evaluator returned a sufficient decision
  in the iteration numbered \<open>k\<close>, the loop returns with \<open>iteration = k\<close>: started at 0,
  it made exactly \<open>k\<close> iterations. And for an iteration whose extraction is not blank and
  whose decision is not sufficient, below the maximum: when the decision carries a next
  query (the code's test, so a non-empty one), the loop goes on as the loop started with
  that query as \<open>currentSearchQuery\<close> and the knowledge appended; when it carries none, the
  loop returns.
\<close>

theorem sufficient_stops_else_next_query:
  "(agentic_loop w u l s = (r, s') \<and> EvaluateCall k (Return d) \<in> set (new_calls s s') \<and>
    isKnowledgeEnough d \<longrightarrow> (\<exists>l'. r = Return l' \<and> iteration l' = k)) \<and>
   (generateText_knowledge w u (la\<lparr>iteration := iteration la + 1\<rparr>) sa = (Return kn, s1) \<and>
    trim kn \<noteq> [] \<and>
    evaluate w (length (calls s1)) u
      (la\<lparr>iteration := iteration la + 1, accumulatedKnowledge := accumulatedKnowledge la @ [kn]\<rparr>) =
      Return da \<and>
    \<not> isKnowledgeEnough da \<and> iteration la + 1 < maxIterations \<longrightarrow>
      (truthy (nextSearchQuery da) \<longrightarrow>
         agentic_loop w u la sa =
           agentic_loop w u
             (la\<lparr>iteration := iteration la + 1,
                 accumulatedKnowledge := accumulatedKnowledge la @ [kn],
                 currentSearchQuery := the (nextSearchQuery da)\<rparr>)
             (record_call (EvaluateCall (iteration la + 1) (Return da)) s1)) \<and>
      (\<not> truthy (nextSearchQuery da) \<longrightarrow>
         agentic_loop w u la sa =
           (Return (la\<lparr>iteration := iteration la + 1,
                        accumulatedKnowledge := accumulatedKnowledge la @ [kn]\<rparr>),
            record_call (EvaluateCall (iteration la + 1) (Return da)) s1)))"
proof (intro conjI impI)
  assume "agentic_loop w u l s = (r, s') \<and> EvaluateCall k (Return d) \<in> set (new_calls s s') \<and>
    isKnowledgeEnough d"
  then show "\<exists>l'. r = Return l' \<and> iteration l' = k"
    using sufficient_stops [of w u l s r s' k d] by simp
next
  assume a: "generateText_knowledge w u (la\<lparr>iteration := iteration la + 1\<rparr>) sa = (Return kn, s1) \<and>
    trim kn \<noteq> [] \<and>
    evaluate w (length (calls s1)) u
      (la\<lparr>iteration := iteration la + 1, accumulatedKnowledge := accumulatedKnowledge la @ [kn]\<rparr>) =
      Return da \<and>
    \<not> isKnowledgeEnough da \<and> iteration la + 1 < maxIterations"
  then have g: "generateText_knowledge w u (la\<lparr>iteration := iteration la + 1\<rparr>) sa = (Return kn, s1)"
    and t: "trim kn \<noteq> []"
    and e: "evaluate w (length (calls s1)) u
      (la\<lparr>iteration := iteration la + 1, accumulatedKnowledge := accumulatedKnowledge la @ [kn]\<rparr>) =
      Return da"
    and n: "\<not> isKnowledgeEnough da"
    by blast+
  from a have m: "\<not> maxIterations \<le> iteration la + 1" by simp
  note eq = agentic_loop_evaluated [OF g t refl refl refl]
  show "agentic_loop w u la sa =
           agentic_loop w u
             (la\<lparr>iteration := iteration la + 1,
                 accumulatedKnowledge := accumulatedKnowledge la @ [kn],
                 currentSearchQuery := the (nextSearchQuery da)\<rparr>)
             (record_call (EvaluateCall (iteration la + 1) (Return da)) s1)"
    if "truthy (nextSearchQuery da)"
    unfolding eq e using that n m by simp
  show "agentic_loop w u la sa =
           (Return (la\<lparr>iteration := iteration la + 1,
                        accumulatedKnowledge := accumulatedKnowledge la @ [kn]\<rparr>),
            record_call (EvaluateCall (iteration la + 1) (Return da)) s1)"
    if "\<not> truthy (nextSearchQuery da)"
    unfolding eq e using that n m by simp
qed

text \<open>
  An evaluator that is satisfied in the third iteration, and one that never names a next
  query.
\<close>

theorem sufficient_stops_else_next_query_witness:
  "EvaluateCall 3 (Return (enough_at 3 3)) \<in>
     set (new_calls demo_agent
            (snd (agentic_loop (loop_world ''fact'' (enough_at 3)) ''policy X'' start_vars demo_agent))) \<and>
   isKnowledgeEnough (enough_at 3 3) \<and>
   (\<exists>l'. fst (agentic_loop (loop_world ''fact'' (enough_at 3)) ''policy X'' start_vars demo_agent) =
            Return l' \<and> iteration l' = 3) \<and>
   \<not> isKnowledgeEnough (enough_at 3 1) \<and> truthy (nextSearchQuery (enough_at 3 1)) \<and>
   agentic_loop (loop_world ''fact'' (enough_at 3)) ''policy X'' start_vars demo_agent =
     agentic_loop (loop_world ''fact'' (enough_at 3)) ''policy X''
       (start_vars\<lparr>iteration := 1, accumulatedKnowledge := [''fact''],
                    currentSearchQuery := ''clause Y''\<rparr>)
       (record_call (EvaluateCall 1 (Return (enough_at 3 1)))
          (snd (generateText_knowledge (loop_world ''fact'' (enough_at 3)) ''policy X''
                  (start_vars\<lparr>iteration := 1\<rparr>) demo_agent))) \<and>
   \<not> truthy (nextSearchQuery (no_next_query 1)) \<and>
   fst (agentic_loop (loop_world ''fact'' no_next_query) ''policy X'' start_vars demo_agent) =
     Return (start_vars\<lparr>iteration := 1, accumulatedKnowledge := [''fact'']\<rparr>)"
proof -
  define W where "W = loop_world ''fact'' (enough_at 3)"
  define V where "V = loop_world ''fact'' no_next_query"
  define r where "r = fst (agentic_loop W ''policy X'' start_vars demo_agent)"
  define s' where "s' = snd (agentic_loop W ''policy X'' start_vars demo_agent)"
  define s1 where "s1 = snd (generateText_knowledge W ''policy X''
      (start_vars\<lparr>iteration := iteration start_vars + 1\<rparr>) demo_agent)"
  define t1 where "t1 = snd (generateText_knowledge V ''policy X''
      (start_vars\<lparr>iteration := iteration start_vars + 1\<rparr>) demo_agent)"
  note ev = W_def V_def r_def s'_def s1_def t1_def loop_eval enough_at_def no_next_query_def
  have run: "agentic_loop W ''policy X'' start_vars demo_agent = (r, s')"
    by (simp add: r_def s'_def)
  have c: "EvaluateCall 3 (Return (enough_at 3 3)) \<in> set (new_calls demo_agent s')"
    by (simp add: ev new_calls_def)
  have suff: "isKnowledgeEnough (enough_at 3 3)" "\<not> isKnowledgeEnough (enough_at 3 1)"
    "truthy (nextSearchQuery (enough_at 3 1))" "\<not> isKnowledgeEnough (no_next_query 1)"
    "\<not> truthy (nextSearchQuery (no_next_query 1))"
    by (simp_all add: enough_at_def no_next_query_def truthy_def)
  have t: "trim ''fact'' \<noteq> []" by (simp add: trim_def is_space_def)
  have m: "iteration start_vars + 1 < maxIterations"
    by (simp add: start_vars_def maxIterations_def)
  have g: "generateText_knowledge W ''policy X'' (start_vars\<lparr>iteration := iteration start_vars + 1\<rparr>)
      demo_agent = (Return ''fact'', s1)"
    by (simp add: ev)
  have e: "evaluate W (length (calls s1)) ''policy X''
      (start_vars\<lparr>iteration := iteration start_vars + 1,
         accumulatedKnowledge := accumulatedKnowledge start_vars @ [''fact'']\<rparr>) =
      Return (enough_at 3 1)"
    by (simp add: ev)
  have g': "generateText_knowledge V ''policy X'' (start_vars\<lparr>iteration := iteration start_vars + 1\<rparr>)
      demo_agent = (Return ''fact'', t1)"
    by (simp add: ev)
  have e': "evaluate V (length (calls t1)) ''policy X''
      (start_vars\<lparr>iteration := iteration start_vars + 1,
         accumulatedKnowledge := accumulatedKnowledge start_vars @ [''fact'']\<rparr>) =
      Return (no_next_query 1)"
    by (simp add: ev)
  from sufficient_stops_else_next_query [of W "''policy X''" start_vars demo_agent r s' 3
      "enough_at 3 3" start_vars demo_agent "''fact''" s1 "enough_at 3 1"] run c suff t m g e
  have 1: "\<exists>l'. r = Return l' \<and> iteration l' = 3"
    and 2: "agentic_loop W ''policy X'' start_vars demo_agent =
           agentic_loop W ''policy X''
             (start_vars\<lparr>iteration := iteration start_vars + 1,
                 accumulatedKnowledge := accumulatedKnowledge start_vars @ [''fact''],
                 currentSearchQuery := the (nextSearchQuery (enough_at 3 1))\<rparr>)
             (record_call (EvaluateCall (iteration start_vars + 1) (Return (enough_at 3 1))) s1)"
    by blast+
  from sufficient_stops_else_next_query [of V "''policy X''" start_vars demo_agent r s' 3
      "enough_at 3 3" start_vars demo_agent "''fact''" t1 "no_next_query 1"] suff t m g' e'
  have 3: "agentic_loop V ''policy X'' start_vars demo_agent =
           (Return (start_vars\<lparr>iteration := iteration start_vars + 1,
                        accumulatedKnowledge := accumulatedKnowledge start_vars @ [''fact'']\<rparr>),
            record_call (EvaluateCall (iteration start_vars + 1) (Return (no_next_query 1))) t1)"
    by blast
  have q: "the (nextSearchQuery (enough_at 3 1)) = ''clause Y''"
    "iteration start_vars + 1 = 1" "accumulatedKnowledge start_vars @ [''fact''] = [''fact'']"
    by (simp_all add: enough_at_def start_vars_def)
  show ?thesis
    using c suff 1 2 3 unfolding q W_def V_def r_def s'_def s1_def by simp
qed

text \<open>
  Claim C6. In any iteration, when the text of the extraction is empty after trimming,
  the loop returns at once with the state the extraction left: the knowledge list is the
  one from before the iteration, and the calls of the iteration are those of the
  extraction session, none of them an evaluation. In the first iteration of a run this
  means that \<open>streamWithMultiStepTools\<close> goes on with \<open>finalAnswer\<close> right after the
  extraction, with an empty knowledge list.
\<close>

theorem blank_knowledge_skips_evaluation:
  "(generateText_knowledge w u (l\<lparr>iteration := iteration l + 1\<rparr>) s = (Return k, s1) \<and>
    trim k = [] \<longrightarrow>
      agentic_loop w u l s = (Return (l\<lparr>iteration := iteration l + 1\<rparr>), s1) \<and>
      accumulatedKnowledge (l\<lparr>iteration := iteration l + 1\<rparr>) = accumulatedKnowledge l \<and>
      (\<forall>c \<in> set (new_calls s s1). session_call (iteration l + 1) c) \<and>
      (\<forall>j a. EvaluateCall j a \<notin> set (new_calls s s1))) \<and>
   (messages b \<noteq> [] \<and>
    rewriteQuery w (content (last (messages b))) (b\<lparr>allFiles := []\<rparr>) = (q, b1) \<and>
    generateText_knowledge w (content (last (messages b)))
      \<lparr>iteration = 1, currentSearchQuery = q, accumulatedKnowledge = []\<rparr> b1 = (Return k1, b2) \<and>
    trim k1 = [] \<longrightarrow>
      streamWithMultiStepTools w b =
        (Return (map snd (allFiles
           (finalAnswer w (content (last (messages b)))
              \<lparr>iteration = 1, currentSearchQuery = q, accumulatedKnowledge = []\<rparr> b2))),
         finalAnswer w (content (last (messages b)))
           \<lparr>iteration = 1, currentSearchQuery = q, accumulatedKnowledge = []\<rparr> b2))"
proof (intro conjI impI allI ballI)
  assume a: "generateText_knowledge w u (l\<lparr>iteration := iteration l + 1\<rparr>) s = (Return k, s1) \<and>
    trim k = []"
  then show "agentic_loop w u l s = (Return (l\<lparr>iteration := iteration l + 1\<rparr>), s1)"
    using agentic_loop_blank [of w u l s k s1] by simp
  show "accumulatedKnowledge (l\<lparr>iteration := iteration l + 1\<rparr>) = accumulatedKnowledge l"
    by simp
  from a have x: "extends (session_call (iteration l + 1)) s s1"
    using generateText_knowledge_calls(1) [of w u "l\<lparr>iteration := iteration l + 1\<rparr>" s "Return k" s1]
    by simp
  show "session_call (iteration l + 1) c" if "c \<in> set (new_calls s s1)" for c
    using extends_new_calls [OF x] that by simp
  show "EvaluateCall j a \<notin> set (new_calls s s1)" for j a
    using x by (rule session_no_evaluate)
next
  let ?u = "content (last (messages b))"
  let ?l0 = "\<lparr>iteration = 0, currentSearchQuery = q, accumulatedKnowledge = []\<rparr>"
  assume a: "messages b \<noteq> [] \<and>
    rewriteQuery w ?u (b\<lparr>allFiles := []\<rparr>) = (q, b1) \<and>
    generateText_knowledge w ?u
      \<lparr>iteration = 1, currentSearchQuery = q, accumulatedKnowledge = []\<rparr> b1 = (Return k1, b2) \<and>
    trim k1 = []"
  then have "agentic_loop w ?u ?l0 b1 = (Return (?l0\<lparr>iteration := iteration ?l0 + 1\<rparr>), b2)"
    using agentic_loop_blank [of w ?u ?l0 b1 k1 b2] by simp
  with a show "streamWithMultiStepTools w b =
        (Return (map snd (allFiles
           (finalAnswer w ?u \<lparr>iteration = 1, currentSearchQuery = q, accumulatedKnowledge = []\<rparr> b2))),
         finalAnswer w ?u \<lparr>iteration = 1, currentSearchQuery = q, accumulatedKnowledge = []\<rparr> b2)"
    using streamWithMultiStepTools_eq [of b w q b1 "Return (?l0\<lparr>iteration := iteration ?l0 + 1\<rparr>)" b2]
    by simp
qed

text \<open>An extraction of two spaces: the run calls the model once and then synthesizes.\<close>

theorem blank_knowledge_skips_evaluation_witness:
  "trim ''  '' = [] \<and>
   fst (agentic_loop (loop_world ''  '' more) ''policy X'' start_vars demo_agent) =
     Return (start_vars\<lparr>iteration := 1\<rparr>) \<and>
   (\<forall>j a. EvaluateCall j a \<notin> set (new_calls demo_agent
      (snd (agentic_loop (loop_world ''  '' more) ''policy X'' start_vars demo_agent)))) \<and>
   messages demo_agent \<noteq> [] \<and>
   fst (streamWithMultiStepTools (loop_world ''  '' more) demo_agent) = Return [] \<and>
   calls (snd (streamWithMultiStepTools (loop_world ''  '' more) demo_agent)) =
     [KnowledgeStepCall 1 (Return \<lparr>step_text = ''  '', toolCalls = []\<rparr>),
      SynthCall [TextDelta ''answer'']]"
proof -
  define W where "W = loop_world ''  '' more"
  define u where "u = content (last (messages demo_agent))"
  define s1 where "s1 = snd (generateText_knowledge W ''policy X''
      (start_vars\<lparr>iteration := iteration start_vars + 1\<rparr>) demo_agent)"
  define b1 where "b1 = snd (rewriteQuery W u (demo_agent\<lparr>allFiles := []\<rparr>))"
  define b2 where "b2 = snd (generateText_knowledge W u
      \<lparr>iteration = 1, currentSearchQuery = u, accumulatedKnowledge = []\<rparr> b1)"
  note ev = W_def u_def s1_def b1_def b2_def loop_eval more_def rewriteQuery_def
    previousUserMessages_def
  have t: "trim ''  '' = []" by (simp add: trim_def is_space_def)
  have g: "generateText_knowledge W ''policy X'' (start_vars\<lparr>iteration := iteration start_vars + 1\<rparr>)
      demo_agent = (Return ''  '', s1)"
    by (simp add: ev)
  have m: "messages demo_agent \<noteq> []" by (simp add: demo_agent_def)
  have rw: "rewriteQuery W u (demo_agent\<lparr>allFiles := []\<rparr>) = (u, b1)"
    by (simp add: ev)
  have g2: "generateText_knowledge W u
      \<lparr>iteration = 1, currentSearchQuery = u, accumulatedKnowledge = []\<rparr> b1 = (Return ''  '', b2)"
    by (simp add: ev)
  from blank_knowledge_skips_evaluation [of W "''policy X''" start_vars demo_agent "''  ''" s1
      demo_agent u b1 "''  ''" b2] t g m rw g2
  have 1: "agentic_loop W ''policy X'' start_vars demo_agent =
        (Return (start_vars\<lparr>iteration := iteration start_vars + 1\<rparr>), s1)"
    and 2: "\<forall>j a. EvaluateCall j a \<notin> set (new_calls demo_agent s1)"
    and 3: "streamWithMultiStepTools W demo_agent =
        (Return (map snd (allFiles
           (finalAnswer W u \<lparr>iteration = 1, currentSearchQuery = u, accumulatedKnowledge = []\<rparr> b2))),
         finalAnswer W u \<lparr>iteration = 1, currentSearchQuery = u, accumulatedKnowledge = []\<rparr> b2)"
    unfolding u_def by blast+
  have 4: "map snd (allFiles
           (finalAnswer W u \<lparr>iteration = 1, currentSearchQuery = u, accumulatedKnowledge = []\<rparr> b2)) = []"
    "calls (finalAnswer W u \<lparr>iteration = 1, currentSearchQuery = u, accumulatedKnowledge = []\<rparr> b2) =
     [KnowledgeStepCall 1 (Return \<lparr>step_text = ''  '', toolCalls = []\<rparr>),
      SynthCall [TextDelta ''answer'']]"
    by (simp_all add: ev finalAnswer_eq)
  have 5: "start_vars\<lparr>iteration := iteration start_vars + 1\<rparr> = start_vars\<lparr>iteration := 1\<rparr>"
    by (simp add: start_vars_def)
  show ?thesis
    using t m 2 4 unfolding 1 3 5 W_def [symmetric] by simp
qed

subsection \<open>The file references\<close>




text \<open>
  Claim C10. A hit is \<open>nameless\<close> when its filename is missing or empty. When a search
  returns hits of which one is nameless, the map has afterwards an entry under the key
  \<open>Unknown\<close> whose filename is \<open>Unknown\<close>, and exactly one such entry when its keys were
  distinct before. In a run that returns, the returned list has at most one entry named
  \<open>Unknown\<close>, and exactly one as soon as any search of the run returned a nameless hit:
  all nameless results of the loop share it.
\<close>

theorem nameless_results_registered_as_Unknown:
  "(performSearch w q a = (Return res, a') \<and>
    autoragSearch w (length (calls a)) (selectedRag (agentState a)) q = Return resp \<and>
    data resp = Some hits \<and> h \<in> set hits \<and> nameless h \<longrightarrow>
      (\<exists>i. map_of (allFiles a') ''Unknown'' = Some \<lparr>filename = ''Unknown'', file_id = i\<rparr>) \<and>
      (distinct (map fst (allFiles a)) \<longrightarrow>
         length (filter (\<lambda>e. fst e = ''Unknown'') (allFiles a')) = 1)) \<and>
   (streamWithMultiStepTools w s = (Return files, s') \<longrightarrow>
      length (filter (\<lambda>r. filename r = ''Unknown'') files) \<le> 1 \<and>
      ((\<exists>c \<in> set (new_calls s s'). returns_nameless c) \<longrightarrow>
         length (filter (\<lambda>r. filename r = ''Unknown'') files) = 1))"
proof (intro conjI impI)
  assume asm: "performSearch w q a = (Return res, a') \<and>
    autoragSearch w (length (calls a)) (selectedRag (agentState a)) q = Return resp \<and>
    data resp = Some hits \<and> h \<in> set hits \<and> nameless h"
  then have p: "performSearch w q a = (Return res, a')" by simp
  from asm have key: "''Unknown'' \<in> fst ` set (allFiles a')"
    using performSearch_unknown [of w q a res a' resp hits h] by simp
  from performSearch_allFiles [OF p]
  have m: "map_of (allFiles a') ''Unknown'' =
     (case find (\<lambda>r. r_filename r = ''Unknown'') (rev (results res)) of
        None \<Rightarrow> map_of (allFiles a) ''Unknown''
      | Some r \<Rightarrow> Some \<lparr>filename = ''Unknown'', file_id = r_file_id r\<rparr>)"
    using map_of_collectFiles [of "results res" "allFiles a" "''Unknown''"] by simp
  from asm have "hits \<noteq> []" by auto
  with asm have "results res = map (\<lambda>(i, h). formatResult i h) (enumerate 0 hits)"
    using performSearch_results [of w q a res a' resp hits] by simp
  with asm obtain x where "x \<in> set (results res)" "r_filename x = ''Unknown''"
    using nameless_in_formatted [of h hits 0] by auto
  then have "find (\<lambda>r. r_filename r = ''Unknown'') (rev (results res)) \<noteq> None"
    by (auto simp add: find_None_iff)
  with m show "\<exists>i. map_of (allFiles a') ''Unknown'' = Some \<lparr>filename = ''Unknown'', file_id = i\<rparr>"
    by (auto split: option.splits)
  show "length (filter (\<lambda>e. fst e = ''Unknown'') (allFiles a')) = 1"
    if d: "distinct (map fst (allFiles a))"
  proof -
    have "distinct (map fst (collectFiles rs fs))" if "distinct (map fst fs)" for rs fs
      using that unfolding collectFiles_def
      by (induction rs arbitrary: fs) (simp_all add: setFile_def distinct_update)
    with d performSearch_allFiles [OF p] have "distinct (map fst (allFiles a'))" by simp
    from count_distinct [OF this, of "''Unknown''"] key show ?thesis
      by simp
  qed
next
  assume run: "streamWithMultiStepTools w s = (Return files, s')"
  have d: "distinct (map filename files)"
    using run by (rule streamWithMultiStepTools_distinct)
  from count_distinct [OF d, of "''Unknown''"]
  show "length (filter (\<lambda>r. filename r = ''Unknown'') files) \<le> 1" by simp
  show "length (filter (\<lambda>r. filename r = ''Unknown'') files) = 1"
    if "\<exists>c \<in> set (new_calls s s'). returns_nameless c"
    using that streamWithMultiStepTools_registers [OF run] count_distinct [OF d, of "''Unknown''"]
    by simp
qed

text \<open>
  A search that returns two nameless hits and \<open>b.pdf\<close>: one entry \<open>Unknown\<close>, with the
  file id of the later nameless hit.
\<close>

theorem nameless_results_registered_as_Unknown_witness:
  "nameless (hd nameless_hits) \<and>
   map_of (allFiles (snd (performSearch (demo_world nameless_hits) ''q'' demo_agent))) ''Unknown'' =
     Some \<lparr>filename = ''Unknown'', file_id = ''id-8''\<rparr> \<and>
   length (filter (\<lambda>e. fst e = ''Unknown'')
             (allFiles (snd (performSearch (demo_world nameless_hits) ''q'' demo_agent)))) = 1 \<and>
   fst (streamWithMultiStepTools (demo_world nameless_hits) demo_agent) =
     Return [\<lparr>filename = ''Unknown'', file_id = ''id-8''\<rparr>,
             \<lparr>filename = ''b.pdf'', file_id = ''id-9''\<rparr>] \<and>
   (\<exists>c \<in> set (new_calls demo_agent
                 (snd (streamWithMultiStepTools (demo_world nameless_hits) demo_agent))).
      returns_nameless c) \<and>
   length (filter (\<lambda>r. filename r = ''Unknown'')
             [\<lparr>filename = ''Unknown'', file_id = ''id-8''\<rparr>,
              \<lparr>filename = ''b.pdf'', file_id = ''id-9''\<rparr>]) = 1"
proof -
  define W where "W = demo_world nameless_hits"
  define res where "res = (case fst (performSearch W ''q'' demo_agent) of Return res \<Rightarrow> res)"
  define files where "files = [\<lparr>filename = ''Unknown'', file_id = ''id-8''\<rparr>,
             \<lparr>filename = ''b.pdf'', file_id = ''id-9''\<rparr>]"
  note ev = W_def res_def files_def demo_eval nameless_hits_def nameless_def
  have n: "nameless (hd nameless_hits)" "hd nameless_hits \<in> set nameless_hits"
    by (simp_all add: ev)
  have search: "performSearch W ''q'' demo_agent = (Return res, snd (performSearch W ''q'' demo_agent))"
    by (simp add: ev)
  have answer: "autoragSearch W (length (calls demo_agent)) (selectedRag (agentState demo_agent)) ''q'' =
      Return \<lparr>data = Some nameless_hits, search_query = None\<rparr>"
    by (simp add: W_def demo_world_def)
  have d: "distinct (map fst (allFiles demo_agent))"
    by (simp add: demo_agent_def)
  have run: "streamWithMultiStepTools W demo_agent = (Return files, snd (streamWithMultiStepTools W demo_agent))"
    by (simp add: ev)
  have runf: "fst (streamWithMultiStepTools W demo_agent) = Return files"
    by (simp add: ev)
  have c: "\<exists>c \<in> set (new_calls demo_agent (snd (streamWithMultiStepTools W demo_agent))).
      returns_nameless c"
    by (simp add: ev new_calls_def returns_nameless_def)
  from nameless_results_registered_as_Unknown [of W "''q''" demo_agent res
      "snd (performSearch W ''q'' demo_agent)" "\<lparr>data = Some nameless_hits, search_query = None\<rparr>"
      nameless_hits "hd nameless_hits" demo_agent files "snd (streamWithMultiStepTools W demo_agent)"]
    n search answer d run c
  have "length (filter (\<lambda>e. fst e = ''Unknown'') (allFiles (snd (performSearch W ''q'' demo_agent)))) = 1"
    and "length (filter (\<lambda>r. filename r = ''Unknown'') files) = 1"
    by simp_all
  moreover have "map_of (allFiles (snd (performSearch W ''q'' demo_agent))) ''Unknown'' =
     Some \<lparr>filename = ''Unknown'', file_id = ''id-8''\<rparr>"
    by (simp add: ev)
  ultimately show ?thesis
    using n(1) runf c by (simp add: W_def files_def)
qed

subsection \<open>Errors of the search\<close>

text \<open>
  Claim C4. It holds of \<open>performSearch\<close> and not of the turn. Without a selected search
  target, \<open>performSearch\<close> and the tool throw the error with the message \<open>noRagMessage\<close>
  and leave the agent as it is: the search service is not called, no event is sent, no
  counter changes, nothing is retried, and no object with \<open>success = False\<close> is returned.
  But the caller of the tool is the generation session, and the session hands the
  exception to the model as the outcome of the call: every tool call of the step ends in
  the tool error, and the next step asks the model with these errors among the outcomes.
  So the error is not fatal for the turn. As long as the generations of the model
  themselves return (\<open>models_answer\<close>), the loop returns and has sent nothing, and the
  turn of a client that has selected no target ends as any other turn: the last call is
  the synthesis, the last event is \<open>finish\<close>, and no exception reaches the handler of
  \<open>onMessage\<close>, the only place that sends an error to the client.
\<close>

theorem missing_target_is_handed_to_the_model:
  "(selectedRag (agentState s) = [] \<longrightarrow>
      performSearch w q s = (Raise (Error noRagMessage), s) \<and>
      searchTool w q s = (Raise (Error noRagMessage), s) \<and>
      executeTools w qs s = (Return (map (\<lambda>x. ToolError (Error noRagMessage)) qs), s)) \<and>
   (selectedRag (agentState s) = [] \<and> knowledgeStep w (length (calls s)) u l outs = Return step \<and>
    toolCalls step \<noteq> [] \<and> n + 1 < 5 \<longrightarrow>
      generateText_steps w u l n outs s =
        generateText_steps w u l (n + 1)
          (outs @ map (\<lambda>x. ToolError (Error noRagMessage)) (toolCalls step))
          (record_call (KnowledgeStepCall (iteration l) (Return step)) s)) \<and>
   (selectedRag (agentState s) = [] \<and> models_answer w \<longrightarrow>
      (\<exists>l' s'. agentic_loop w u l s = (Return l', s') \<and> sent s' = sent s)) \<and>
   (selectedRag (agentState a) = [] \<and> \<not> truthy (in_selectedRag d) \<and> in_messages d = Some ms \<and>
    ms \<noteq> [] \<and> models_answer w \<longrightarrow>
      (\<exists>b parts. processAndStreamResponse w (acceptMessages ms a) = (Return (), b) \<and>
         onMessage w d a = b \<and> last (calls b) = SynthCall parts \<and> last (sent b) = FinishEvent))"
proof (intro conjI impI)
  assume "selectedRag (agentState s) = []"
  then show "performSearch w q s = (Raise (Error noRagMessage), s)"
    and "searchTool w q s = (Raise (Error noRagMessage), s)"
    and "executeTools w qs s = (Return (map (\<lambda>x. ToolError (Error noRagMessage)) qs), s)"
    by (simp_all add: searchTool_def performSearch_def executeTools_no_target)
next
  assume "selectedRag (agentState s) = [] \<and> knowledgeStep w (length (calls s)) u l outs = Return step \<and>
    toolCalls step \<noteq> [] \<and> n + 1 < 5"
  then show "generateText_steps w u l n outs s =
        generateText_steps w u l (n + 1)
          (outs @ map (\<lambda>x. ToolError (Error noRagMessage)) (toolCalls step))
          (record_call (KnowledgeStepCall (iteration l) (Return step)) s)"
    using generateText_steps_no_target [of s w u l outs step n] by simp
next
  assume h: "selectedRag (agentState s) = [] \<and> models_answer w"
  then obtain l' s' where run: "agentic_loop w u l s = (Return l', s')"
    using agentic_loop_returns [of w u l s] by blast
  with h have "sent s' = sent s"
    using agentic_loop_no_target_quiet [of w u l s "Return l'" s'] by simp
  with run show "\<exists>l' s'. agentic_loop w u l s = (Return l', s') \<and> sent s' = sent s"
    by blast
next
  let ?a0 = "acceptMessages ms a"
  let ?u = "content (last ms)"
  assume h: "selectedRag (agentState a) = [] \<and> \<not> truthy (in_selectedRag d) \<and> in_messages d = Some ms \<and>
    ms \<noteq> [] \<and> models_answer w"
  obtain query b1 where rw: "rewriteQuery w ?u (?a0\<lparr>allFiles := []\<rparr>) = (query, b1)"
    by (cases "rewriteQuery w ?u (?a0\<lparr>allFiles := []\<rparr>)")
  from h have m: "messages ?a0 \<noteq> []" "last (messages ?a0) = last ms"
    by (simp_all add: acceptMessages_def persistMessages_def Let_def split: option.splits)
  let ?l0 = "\<lparr>iteration = 0, currentSearchQuery = query, accumulatedKnowledge = []\<rparr>"
  from h obtain l' b2 where run: "agentic_loop w ?u ?l0 b1 = (Return l', b2)"
    using agentic_loop_returns [of w ?u ?l0 b1] by blast
  define b3 where "b3 = finalAnswer w ?u l' b2"
  from rw run m have st: "streamWithMultiStepTools w ?a0 = (Return (map snd (allFiles b3)), b3)"
    using streamWithMultiStepTools_eq [of ?a0 w query b1 "Return l'" b2] by (simp add: b3_def)
  define b where "b = send FinishEvent
      (if length (map snd (allFiles b3)) > 0
       then send (FilesEvent (map snd (allFiles b3))) (persistMessages b3) else persistMessages b3)"
  from st have p: "processAndStreamResponse w ?a0 = (Return (), b)"
    by (simp add: processAndStreamResponse_def b_def Let_def)
  with h have o: "onMessage w d a = b"
    by (simp add: onMessage_def Let_def)
  have "calls b = calls b3"
    by (simp add: b_def send_def persistMessages_def)
  moreover have "last (calls b3) = SynthCall (synthesize w (length (calls b2)) ?u l')"
    by (simp add: b3_def finalAnswer_eq Let_def)
  moreover have "last (sent b) = FinishEvent"
    by (simp add: b_def send_def)
  ultimately show "\<exists>b parts. processAndStreamResponse w (acceptMessages ms a) = (Return (), b) \<and>
         onMessage w d a = b \<and> last (calls b) = SynthCall parts \<and> last (sent b) = FinishEvent"
    using p o by simp
qed

text \<open>
  A client that has selected no target sends its first message, and the first step of
  the model asks for a search. The search throws, the second step of the model sees the
  tool error and answers, the evaluator and the synthesis run, and the client receives
  the answer and \<open>finish\<close>: no error event, and the answer is stored as a message of the
  assistant.
\<close>

theorem missing_target_is_handed_to_the_model_witness:
  "selectedRag (agentState fresh_agent) = [] \<and> models_answer (demo_world []) \<and>
   performSearch (demo_world []) ''What is policy X?'' fresh_agent =
     (Raise (Error noRagMessage), fresh_agent) \<and>
   executeTools (demo_world []) [''What is policy X?''] fresh_agent =
     (Return [ToolError (Error noRagMessage)], fresh_agent) \<and>
   knowledgeStep (demo_world []) 0 ''What is policy X?''
     \<lparr>iteration = 1, currentSearchQuery = ''What is policy X?'', accumulatedKnowledge = []\<rparr> [] =
     Return \<lparr>step_text = [], toolCalls = [''What is policy X?'']\<rparr> \<and>
   generateText_steps (demo_world []) ''What is policy X?''
     \<lparr>iteration = 1, currentSearchQuery = ''What is policy X?'', accumulatedKnowledge = []\<rparr> 0 []
     fresh_agent =
     generateText_steps (demo_world []) ''What is policy X?''
       \<lparr>iteration = 1, currentSearchQuery = ''What is policy X?'', accumulatedKnowledge = []\<rparr> 1
       [ToolError (Error noRagMessage)]
       (record_call
          (KnowledgeStepCall 1 (Return \<lparr>step_text = [], toolCalls = [''What is policy X?'']\<rparr>))
          fresh_agent) \<and>
   fst (generateText_steps (demo_world []) ''What is policy X?''
     \<lparr>iteration = 1, currentSearchQuery = ''What is policy X?'', accumulatedKnowledge = []\<rparr> 0 []
     fresh_agent) = Return ''fact'' \<and>
   (\<exists>l'. fst (agentic_loop (demo_world []) ''What is policy X?''
             \<lparr>iteration = 0, currentSearchQuery = ''What is policy X?'', accumulatedKnowledge = []\<rparr>
             fresh_agent) = Return l') \<and>
   sent (snd (agentic_loop (demo_world []) ''What is policy X?''
             \<lparr>iteration = 0, currentSearchQuery = ''What is policy X?'', accumulatedKnowledge = []\<rparr>
             fresh_agent)) = [] \<and>
   fst (processAndStreamResponse (demo_world [])
          (acceptMessages [\<lparr>role = ''user'', content = ''What is policy X?''\<rparr>] fresh_agent)) =
     Return () \<and>
   calls (onMessage (demo_world []) first_message fresh_agent) =
     [KnowledgeStepCall 1 (Return \<lparr>step_text = [], toolCalls = [''What is policy X?'']\<rparr>),
      KnowledgeStepCall 1 (Return \<lparr>step_text = ''fact'', toolCalls = []\<rparr>),
      EvaluateCall 1 (Return \<lparr>isKnowledgeEnough = True, nextSearchQuery = None\<rparr>),
      SynthCall [TextDelta ''answer'']] \<and>
   sent (onMessage (demo_world []) first_message fresh_agent) =
     [TextDeltaEvent ''answer'', FinishEvent] \<and>
   messages (onMessage (demo_world []) first_message fresh_agent) =
     [\<lparr>role = ''user'', content = ''What is policy X?''\<rparr>,
      \<lparr>role = ''assistant'', content = ''answer''\<rparr>]"
proof -
  let ?ms = "[\<lparr>role = ''user'', content = ''What is policy X?''\<rparr>]"
  let ?u = "''What is policy X?''"
  let ?l0 = "\<lparr>iteration = 0, currentSearchQuery = ?u, accumulatedKnowledge = []\<rparr>"
  let ?l1 = "\<lparr>iteration = 1, currentSearchQuery = ?u, accumulatedKnowledge = []\<rparr>"
  let ?step = "\<lparr>step_text = [], toolCalls = [?u]\<rparr>"
  have rag: "selectedRag (agentState fresh_agent) = []"
    by (simp add: fresh_agent_def)
  have ma: "models_answer (demo_world [])"
    by (simp add: demo_world_def models_answer_def)
  have d: "\<not> truthy (in_selectedRag first_message)" "in_messages first_message = Some ?ms" "?ms \<noteq> []"
    by (simp_all add: first_message_def truthy_def)
  have k: "knowledgeStep (demo_world []) 0 ?u ?l1 [] = Return ?step"
    by (simp add: demo_world_def)
  then have k': "knowledgeStep (demo_world []) (length (calls fresh_agent)) ?u ?l1 [] = Return ?step"
    by (simp add: fresh_agent_def)
  have n: "toolCalls ?step \<noteq> []" "(0::nat) + 1 < 5"
    by simp_all
  note inst = missing_target_is_handed_to_the_model [of fresh_agent "demo_world []" ?u "[?u]" ?u ?l1 "[]"
      ?step 0 fresh_agent first_message ?ms]
    missing_target_is_handed_to_the_model [of fresh_agent "demo_world []" ?u "[?u]" ?u ?l0 "[]"
      ?step 0 fresh_agent first_message ?ms]
  from inst(1) rag ma d k' n
  have 1: "performSearch (demo_world []) ?u fresh_agent = (Raise (Error noRagMessage), fresh_agent)"
    and 2: "executeTools (demo_world []) [?u] fresh_agent =
      (Return (map (\<lambda>x. ToolError (Error noRagMessage)) [?u]), fresh_agent)"
    and 3: "generateText_steps (demo_world []) ?u ?l1 0 [] fresh_agent =
        generateText_steps (demo_world []) ?u ?l1 (0 + 1)
          ([] @ map (\<lambda>x. ToolError (Error noRagMessage)) (toolCalls ?step))
          (record_call (KnowledgeStepCall (iteration ?l1) (Return ?step)) fresh_agent)"
    and 4: "\<exists>b parts. processAndStreamResponse (demo_world []) (acceptMessages ?ms fresh_agent) =
         (Return (), b) \<and> onMessage (demo_world []) first_message fresh_agent = b \<and>
         last (calls b) = SynthCall parts \<and> last (sent b) = FinishEvent"
    by blast+
  from inst(2) rag ma
  have "\<exists>l' s'. agentic_loop (demo_world []) ?u ?l0 fresh_agent = (Return l', s') \<and>
      sent s' = sent fresh_agent"
    by blast
  then have 5: "\<exists>l'. fst (agentic_loop (demo_world []) ?u ?l0 fresh_agent) = Return l'"
    and 6: "sent (snd (agentic_loop (demo_world []) ?u ?l0 fresh_agent)) = []"
    by (auto simp add: fresh_agent_def)
  from 4 have 7: "fst (processAndStreamResponse (demo_world []) (acceptMessages ?ms fresh_agent)) =
      Return ()" by auto
  have 8: "fst (generateText_steps (demo_world []) ?u ?l1 0 [] fresh_agent) = Return ''fact''"
    by (simp add: fresh_agent_def demo_eval)
  have 9: "calls (onMessage (demo_world []) first_message fresh_agent) =
     [KnowledgeStepCall 1 (Return \<lparr>step_text = [], toolCalls = [''What is policy X?'']\<rparr>),
      KnowledgeStepCall 1 (Return \<lparr>step_text = ''fact'', toolCalls = []\<rparr>),
      EvaluateCall 1 (Return \<lparr>isKnowledgeEnough = True, nextSearchQuery = None\<rparr>),
      SynthCall [TextDelta ''answer'']] \<and>
   sent (onMessage (demo_world []) first_message fresh_agent) =
     [TextDeltaEvent ''answer'', FinishEvent] \<and>
   messages (onMessage (demo_world []) first_message fresh_agent) =
     [\<lparr>role = ''user'', content = ''What is policy X?''\<rparr>,
      \<lparr>role = ''assistant'', content = ''answer''\<rparr>]"
    by (simp add: onMessage_def processAndStreamResponse_def acceptMessages_def persistMessages_def
        first_message_def fresh_agent_def demo_eval)
  from 3 have 10: "generateText_steps (demo_world []) ?u ?l1 0 [] fresh_agent =
     generateText_steps (demo_world []) ?u ?l1 1 [ToolError (Error noRagMessage)]
       (record_call (KnowledgeStepCall 1 (Return ?step)) fresh_agent)"
    by simp
  from 2 have 11: "executeTools (demo_world []) [?u] fresh_agent =
     (Return [ToolError (Error noRagMessage)], fresh_agent)" by simp
  show ?thesis
    using rag ma 1 11 k 10 8 5 6 7 9 by (intro conjI) blast+
qed

text \<open>
  Claim C5. With a search target selected, a search whose call of the search service
  throws an error with message \<open>m\<close> makes the tool return the object with
  \<open>success = False\<close> and \<open>message = m\<close> instead of throwing, and leaves the file map as
  it is. So every tool call of a step ends in a result, whatever the searches do, and
  the session goes on. And the loop is not aborted by searches: as long as the
  generations of the model themselves return (\<open>models_answer\<close>), the loop returns,
  however many searches fail.
\<close>

theorem search_failure_is_contained:
  "(selectedRag (agentState s) \<noteq> [] \<and>
    autoragSearch w (length (calls s)) (selectedRag (agentState s)) q = Raise (Error m) \<longrightarrow>
      (\<exists>s'. searchTool w q s =
         (Return \<lparr>success = False, found = None, error = Some ''Failed to search the database'',
                  message = Some m, count = None, tr_search_query = None, results = []\<rparr>, s') \<and>
         allFiles s' = allFiles s)) \<and>
   (selectedRag (agentState s) \<noteq> [] \<longrightarrow>
      (\<exists>outs s'. executeTools w qs s = (Return outs, s') \<and> length outs = length qs)) \<and>
   (selectedRag (agentState s) \<noteq> [] \<and> models_answer w \<longrightarrow>
      (\<exists>l' s'. agentic_loop w u l s = (Return l', s')))"
proof (intro conjI impI)
  assume "selectedRag (agentState s) \<noteq> [] \<and>
    autoragSearch w (length (calls s)) (selectedRag (agentState s)) q = Raise (Error m)"
  then show "\<exists>s'. searchTool w q s =
         (Return \<lparr>success = False, found = None, error = Some ''Failed to search the database'',
                  message = Some m, count = None, tr_search_query = None, results = []\<rparr>, s') \<and>
         allFiles s' = allFiles s"
    by (simp add: searchTool_def performSearch_unfold)
next
  assume "selectedRag (agentState s) \<noteq> []"
  then show "\<exists>outs s'. executeTools w qs s = (Return outs, s') \<and> length outs = length qs"
    using executeTools_returns [of w qs s] by blast
next
  assume "selectedRag (agentState s) \<noteq> [] \<and> models_answer w"
  then show "\<exists>l' s'. agentic_loop w u l s = (Return l', s')"
    using agentic_loop_returns [of w u l s] by simp
qed

text \<open>A search service that always times out.\<close>

theorem search_failure_is_contained_witness:
  "selectedRag (agentState demo_agent) \<noteq> [] \<and>
   autoragSearch (failing_search (demo_world [])) 0 ''docs'' ''q'' = Raise (Error ''timeout'') \<and>
   fst (searchTool (failing_search (demo_world [])) ''q'' demo_agent) =
     Return \<lparr>success = False, found = None, error = Some ''Failed to search the database'',
             message = Some ''timeout'', count = None, tr_search_query = None, results = []\<rparr> \<and>
   (\<exists>outs. fst (executeTools (failing_search (demo_world [])) [''q'', ''r''] demo_agent) = Return outs \<and>
      length outs = 2) \<and>
   models_answer (failing_search (demo_world [])) \<and>
   (\<exists>l'. fst (agentic_loop (failing_search (demo_world [])) ''policy X'' start_vars demo_agent) =
      Return l')"
proof -
  define W where "W = failing_search (demo_world [])"
  have rag: "selectedRag (agentState demo_agent) \<noteq> []"
    "selectedRag (agentState demo_agent) = ''docs''" "length (calls demo_agent) = 0"
    by (simp_all add: demo_agent_def)
  have f: "autoragSearch W (length (calls demo_agent)) (selectedRag (agentState demo_agent)) ''q'' =
      Raise (Error ''timeout'')"
    by (simp add: W_def failing_search_def)
  have ma: "models_answer W"
    by (simp add: W_def failing_search_def demo_world_def models_answer_def)
  from search_failure_is_contained [of demo_agent W "''q''" "''timeout''" "[''q'', ''r'']"
      "''policy X''" start_vars] rag(1) f ma
  have "\<exists>s'. searchTool W ''q'' demo_agent =
         (Return \<lparr>success = False, found = None, error = Some ''Failed to search the database'',
                  message = Some ''timeout'', count = None, tr_search_query = None, results = []\<rparr>, s')"
    and "\<exists>outs s'. executeTools W [''q'', ''r''] demo_agent = (Return outs, s') \<and>
           length outs = length [''q'', ''r'']"
    and "\<exists>l' s'. agentic_loop W ''policy X'' start_vars demo_agent = (Return l', s')"
    by blast+
  then have "fst (searchTool W ''q'' demo_agent) =
     Return \<lparr>success = False, found = None, error = Some ''Failed to search the database'',
             message = Some ''timeout'', count = None, tr_search_query = None, results = []\<rparr>"
    and "\<exists>outs. fst (executeTools W [''q'', ''r''] demo_agent) = Return outs \<and> length outs = 2"
    and "\<exists>l'. fst (agentic_loop W ''policy X'' start_vars demo_agent) = Return l'"
    by auto
  with rag f ma show ?thesis
    unfolding W_def by simp
qed

subsection \<open>The query of the loop\<close>

text \<open>
  Claim C7. When no message before the last one has the role \<open>user\<close>, \<open>rewriteQuery\<close>
  returns the utterance as it is and the agent as it is: no call is recorded and no event
  is sent, and the result is the same whatever the rewriting service would answer. The
  run then is the loop started with \<open>currentSearchQuery\<close> equal to the utterance, followed
  by the synthesis.
\<close>

theorem no_history_keeps_query:
  "(previousUserMessages (messages s) = [] \<longrightarrow>
      rewriteQuery w userQuery s = (userQuery, s) \<and>
      rewriteQuery (w\<lparr>rewriteText := f\<rparr>) userQuery s = rewriteQuery w userQuery s) \<and>
   (messages s \<noteq> [] \<and> previousUserMessages (messages s) = [] \<and>
    agentic_loop w (content (last (messages s)))
      \<lparr>iteration = 0, currentSearchQuery = content (last (messages s)), accumulatedKnowledge = []\<rparr>
      (s\<lparr>allFiles := []\<rparr>) = (r, s2) \<longrightarrow>
      streamWithMultiStepTools w s =
        (case r of
           Raise e \<Rightarrow> (Raise e, s2)
         | Return l \<Rightarrow>
             (Return (map snd (allFiles (finalAnswer w (content (last (messages s))) l s2))),
              finalAnswer w (content (last (messages s))) l s2)))"
proof (intro conjI impI)
  assume "previousUserMessages (messages s) = []"
  then show "rewriteQuery w userQuery s = (userQuery, s)"
    and "rewriteQuery (w\<lparr>rewriteText := f\<rparr>) userQuery s = rewriteQuery w userQuery s"
    by (simp_all add: rewriteQuery_def)
next
  assume a: "messages s \<noteq> [] \<and> previousUserMessages (messages s) = [] \<and>
    agentic_loop w (content (last (messages s)))
      \<lparr>iteration = 0, currentSearchQuery = content (last (messages s)), accumulatedKnowledge = []\<rparr>
      (s\<lparr>allFiles := []\<rparr>) = (r, s2)"
  then have "rewriteQuery w (content (last (messages s))) (s\<lparr>allFiles := []\<rparr>) =
      (content (last (messages s)), s\<lparr>allFiles := []\<rparr>)"
    by (simp add: rewriteQuery_def)
  with a show "streamWithMultiStepTools w s =
        (case r of
           Raise e \<Rightarrow> (Raise e, s2)
         | Return l \<Rightarrow>
             (Return (map snd (allFiles (finalAnswer w (content (last (messages s))) l s2))),
              finalAnswer w (content (last (messages s))) l s2))"
    using streamWithMultiStepTools_eq [of s w "content (last (messages s))" "s\<lparr>allFiles := []\<rparr>" r s2]
    by simp
qed

text \<open>A first question: the calls of the run are one extraction, one evaluation, the synthesis.\<close>

theorem no_history_keeps_query_witness:
  "previousUserMessages (messages demo_agent) = [] \<and>
   rewriteQuery (loop_world ''fact'' (enough_at 1)) ''What is policy X?'' demo_agent =
     (''What is policy X?'', demo_agent) \<and>
   messages demo_agent \<noteq> [] \<and>
   calls (snd (streamWithMultiStepTools (loop_world ''fact'' (enough_at 1)) demo_agent)) =
     [KnowledgeStepCall 1 (Return \<lparr>step_text = ''fact'', toolCalls = []\<rparr>),
      EvaluateCall 1 (Return (enough_at 1 1)),
      SynthCall [TextDelta ''answer'']]"
proof -
  define W where "W = loop_world ''fact'' (enough_at 1)"
  define u where "u = content (last (messages demo_agent))"
  define r where "r = fst (agentic_loop W u
      \<lparr>iteration = 0, currentSearchQuery = u, accumulatedKnowledge = []\<rparr> (demo_agent\<lparr>allFiles := []\<rparr>))"
  define s2 where "s2 = snd (agentic_loop W u
      \<lparr>iteration = 0, currentSearchQuery = u, accumulatedKnowledge = []\<rparr> (demo_agent\<lparr>allFiles := []\<rparr>))"
  note ev = W_def u_def r_def s2_def loop_eval enough_at_def run_eval
  have p: "previousUserMessages (messages demo_agent) = []"
    by (simp add: previousUserMessages_def demo_agent_def)
  have m: "messages demo_agent \<noteq> []" by (simp add: demo_agent_def)
  have lp: "agentic_loop W u \<lparr>iteration = 0, currentSearchQuery = u, accumulatedKnowledge = []\<rparr>
      (demo_agent\<lparr>allFiles := []\<rparr>) = (r, s2)"
    by (simp add: r_def s2_def)
  from no_history_keeps_query [of demo_agent W "''What is policy X?''" "rewriteText W" r s2] p m lp
  have 1: "rewriteQuery W ''What is policy X?'' demo_agent = (''What is policy X?'', demo_agent)"
    and 2: "streamWithMultiStepTools W demo_agent =
        (case r of
           Raise e \<Rightarrow> (Raise e, s2)
         | Return l \<Rightarrow> (Return (map snd (allFiles (finalAnswer W u l s2))), finalAnswer W u l s2))"
    unfolding u_def by blast+
  have 3: "calls (snd (case r of
           Raise e \<Rightarrow> (Raise e, s2)
         | Return l \<Rightarrow> (Return (map snd (allFiles (finalAnswer W u l s2))), finalAnswer W u l s2))) =
     [KnowledgeStepCall 1 (Return \<lparr>step_text = ''fact'', toolCalls = []\<rparr>),
      EvaluateCall 1 (Return (enough_at 1 1)),
      SynthCall [TextDelta ''answer'']]"
    by (simp add: ev)
  have 4: "calls (snd (streamWithMultiStepTools W demo_agent)) =
     [KnowledgeStepCall 1 (Return \<lparr>step_text = ''fact'', toolCalls = []\<rparr>),
      EvaluateCall 1 (Return (enough_at 1 1)),
      SynthCall [TextDelta ''answer'']]"
    unfolding 2 by (rule 3)
  show ?thesis
    using p m 1 4 unfolding W_def by simp
qed

text \<open>
  Claim C8. When there are earlier user messages and the rewriting generation throws,
  \<open>rewriteQuery\<close> returns the unmodified utterance; nothing is sent and nothing is thrown
  on; the only trace is the failed call. The run then is the loop started with the
  utterance as \<open>currentSearchQuery\<close>, followed by the synthesis, as without a history.
\<close>

theorem rewrite_failure_falls_back:
  "(previousUserMessages (messages s) \<noteq> [] \<and>
    rewriteText w (length (calls s)) (previousUserMessages (messages s)) userQuery = Raise e \<longrightarrow>
      rewriteQuery w userQuery s = (userQuery, record_call (RewriteCall (Raise e)) s)) \<and>
   (messages s \<noteq> [] \<and> previousUserMessages (messages s) \<noteq> [] \<and>
    rewriteText w (length (calls s)) (previousUserMessages (messages s))
      (content (last (messages s))) = Raise e \<and>
    agentic_loop w (content (last (messages s)))
      \<lparr>iteration = 0, currentSearchQuery = content (last (messages s)), accumulatedKnowledge = []\<rparr>
      (record_call (RewriteCall (Raise e)) (s\<lparr>allFiles := []\<rparr>)) = (r, s2) \<longrightarrow>
      streamWithMultiStepTools w s =
        (case r of
           Raise e' \<Rightarrow> (Raise e', s2)
         | Return l \<Rightarrow>
             (Return (map snd (allFiles (finalAnswer w (content (last (messages s))) l s2))),
              finalAnswer w (content (last (messages s))) l s2)))"
proof (intro conjI impI)
  assume "previousUserMessages (messages s) \<noteq> [] \<and>
    rewriteText w (length (calls s)) (previousUserMessages (messages s)) userQuery = Raise e"
  then show "rewriteQuery w userQuery s = (userQuery, record_call (RewriteCall (Raise e)) s)"
    by (simp add: rewriteQuery_def Let_def)
next
  assume a: "messages s \<noteq> [] \<and> previousUserMessages (messages s) \<noteq> [] \<and>
    rewriteText w (length (calls s)) (previousUserMessages (messages s))
      (content (last (messages s))) = Raise e \<and>
    agentic_loop w (content (last (messages s)))
      \<lparr>iteration = 0, currentSearchQuery = content (last (messages s)), accumulatedKnowledge = []\<rparr>
      (record_call (RewriteCall (Raise e)) (s\<lparr>allFiles := []\<rparr>)) = (r, s2)"
  then have "rewriteQuery w (content (last (messages s))) (s\<lparr>allFiles := []\<rparr>) =
      (content (last (messages s)), record_call (RewriteCall (Raise e)) (s\<lparr>allFiles := []\<rparr>))"
    by (simp add: rewriteQuery_def Let_def)
  with a show "streamWithMultiStepTools w s =
        (case r of
           Raise e' \<Rightarrow> (Raise e', s2)
         | Return l \<Rightarrow>
             (Return (map snd (allFiles (finalAnswer w (content (last (messages s))) l s2))),
              finalAnswer w (content (last (messages s))) l s2))"
    using streamWithMultiStepTools_eq [of s w "content (last (messages s))"
        "record_call (RewriteCall (Raise e)) (s\<lparr>allFiles := []\<rparr>)" r s2]
    by simp
qed

text \<open>A follow-up question whose rewriting fails: the model is asked with the follow-up itself.\<close>

theorem rewrite_failure_falls_back_witness:
  "previousUserMessages (messages history_agent) = [''What is policy X?''] \<and>
   rewriteText (failing_rewrite (loop_world ''fact'' (enough_at 1))) 0
     [''What is policy X?''] ''and clause Y?'' = Raise (Error ''overloaded'') \<and>
   rewriteQuery (failing_rewrite (loop_world ''fact'' (enough_at 1))) ''and clause Y?'' history_agent =
     (''and clause Y?'', record_call (RewriteCall (Raise (Error ''overloaded''))) history_agent) \<and>
   fst (streamWithMultiStepTools (failing_rewrite (loop_world ''fact'' (enough_at 1))) history_agent) =
     Return [] \<and>
   sent (snd (streamWithMultiStepTools (failing_rewrite (loop_world ''fact'' (enough_at 1)))
                history_agent)) = [TextDeltaEvent ''answer''] \<and>
   calls (snd (streamWithMultiStepTools (failing_rewrite (loop_world ''fact'' (enough_at 1)))
                 history_agent)) =
     [RewriteCall (Raise (Error ''overloaded'')),
      KnowledgeStepCall 1 (Return \<lparr>step_text = ''fact'', toolCalls = []\<rparr>),
      EvaluateCall 1 (Return (enough_at 1 1)),
      SynthCall [TextDelta ''answer'']]"
proof -
  define W where "W = failing_rewrite (loop_world ''fact'' (enough_at 1))"
  define u where "u = content (last (messages history_agent))"
  define e where "e = Error ''overloaded''"
  define s1 where "s1 = record_call (RewriteCall (Raise e)) (history_agent\<lparr>allFiles := []\<rparr>)"
  define r where "r = fst (agentic_loop W u
      \<lparr>iteration = 0, currentSearchQuery = u, accumulatedKnowledge = []\<rparr> s1)"
  define s2 where "s2 = snd (agentic_loop W u
      \<lparr>iteration = 0, currentSearchQuery = u, accumulatedKnowledge = []\<rparr> s1)"
  note ev = W_def u_def e_def s1_def r_def s2_def loop_eval enough_at_def run_eval
    failing_rewrite_def history_agent_def
  have p: "previousUserMessages (messages history_agent) = [''What is policy X?'']"
    by (simp add: ev)
  then have p': "previousUserMessages (messages history_agent) \<noteq> []" by simp
  have m: "messages history_agent \<noteq> []" by (simp add: ev)
  have uq: "u = ''and clause Y?''" by (simp add: ev)
  have f: "rewriteText W (length (calls history_agent))
      (previousUserMessages (messages history_agent)) u = Raise e"
    by (simp add: ev)
  have f0: "rewriteText W 0 [''What is policy X?''] ''and clause Y?'' = Raise (Error ''overloaded'')"
    by (simp add: ev)
  have lp: "agentic_loop W u \<lparr>iteration = 0, currentSearchQuery = u, accumulatedKnowledge = []\<rparr>
      (record_call (RewriteCall (Raise e)) (history_agent\<lparr>allFiles := []\<rparr>)) = (r, s2)"
    by (simp add: r_def s2_def s1_def)
  from rewrite_failure_falls_back [of history_agent W u e r s2] p' m f lp
  have 1: "rewriteQuery W u history_agent = (u, record_call (RewriteCall (Raise e)) history_agent)"
    and 2: "streamWithMultiStepTools W history_agent =
        (case r of
           Raise e' \<Rightarrow> (Raise e', s2)
         | Return l \<Rightarrow> (Return (map snd (allFiles (finalAnswer W u l s2))), finalAnswer W u l s2))"
    unfolding u_def by blast+
  have 3: "fst (case r of
           Raise e' \<Rightarrow> (Raise e', s2)
         | Return l \<Rightarrow> (Return (map snd (allFiles (finalAnswer W u l s2))), finalAnswer W u l s2)) =
        Return []"
    "sent (snd (case r of
           Raise e' \<Rightarrow> (Raise e', s2)
         | Return l \<Rightarrow> (Return (map snd (allFiles (finalAnswer W u l s2))), finalAnswer W u l s2))) =
        [TextDeltaEvent ''answer'']"
    "calls (snd (case r of
           Raise e' \<Rightarrow> (Raise e', s2)
         | Return l \<Rightarrow> (Return (map snd (allFiles (finalAnswer W u l s2))), finalAnswer W u l s2))) =
     [RewriteCall (Raise (Error ''overloaded'')),
      KnowledgeStepCall 1 (Return \<lparr>step_text = ''fact'', toolCalls = []\<rparr>),
      EvaluateCall 1 (Return (enough_at 1 1)),
      SynthCall [TextDelta ''answer'']]"
    by (simp_all add: ev)
  have 4: "fst (streamWithMultiStepTools W history_agent) = Return []"
    "sent (snd (streamWithMultiStepTools W history_agent)) = [TextDeltaEvent ''answer'']"
    "calls (snd (streamWithMultiStepTools W history_agent)) =
     [RewriteCall (Raise (Error ''overloaded'')),
      KnowledgeStepCall 1 (Return \<lparr>step_text = ''fact'', toolCalls = []\<rparr>),
      EvaluateCall 1 (Return (enough_at 1 1)),
      SynthCall [TextDelta ''answer'']]"
    unfolding 2 by (rule 3)+
  show ?thesis
    using p f0 1 4 unfolding W_def uq e_def by simp
qed

subsection \<open>The synthesis\<close>

text \<open>
  Claim C9. \<open>finalAnswer\<close> sends one event for every text fragment and every error of the
  stream, in the order of the stream. For a stream with an error part in the middle, the
  events of the fragments before it stay sent, the error event follows them, and the
  complete text is made of the fragments before and after the error. When the complete
  text is not empty after trimming, the history grows by exactly one message, of role
  \<open>assistant\<close>, with that text; otherwise the history is unchanged. A run that returns
  has changed the history in no other way.
\<close>

theorem synthesis_keeps_text_and_appends_one_turn:
  "(finalAnswer w u l s = s' \<and> synthesize w (length (calls s)) u l = parts \<longrightarrow>
      sent s' = sent s @ stream_events parts \<and>
      (trim (stream_text parts) \<noteq> [] \<longrightarrow>
         messages s' = messages s @ [\<lparr>role = ''assistant'', content = stream_text parts\<rparr>]) \<and>
      (trim (stream_text parts) = [] \<longrightarrow> messages s' = messages s) \<and>
      (\<forall>before e after. parts = before @ StreamError e # after \<longrightarrow>
         sent s' = sent s @ stream_events before @ ErrorEvent e # stream_events after \<and>
         stream_text parts = stream_text before @ stream_text after)) \<and>
   (streamWithMultiStepTools w a = (Return files, a') \<longrightarrow>
      messages a' = messages a \<or>
      (\<exists>answer. trim answer \<noteq> [] \<and>
         messages a' = messages a @ [\<lparr>role = ''assistant'', content = answer\<rparr>]))"
proof (intro conjI impI allI)
  assume a: "finalAnswer w u l s = s' \<and> synthesize w (length (calls s)) u l = parts"
  then show "sent s' = sent s @ stream_events parts"
    by (auto simp add: finalAnswer_eq Let_def)
  show "messages s' = messages s @ [\<lparr>role = ''assistant'', content = stream_text parts\<rparr>]"
    if "trim (stream_text parts) \<noteq> []"
    using a that by (auto simp add: finalAnswer_eq Let_def)
  show "messages s' = messages s" if "trim (stream_text parts) = []"
    using a that by (auto simp add: finalAnswer_eq Let_def)
  fix before e after
  assume p: "parts = before @ StreamError e # after"
  from a have "sent s' = sent s @ stream_events parts"
    by (auto simp add: finalAnswer_eq Let_def)
  then show "sent s' = sent s @ stream_events before @ ErrorEvent e # stream_events after"
    by (simp add: p stream_events_append)
  show "stream_text parts = stream_text before @ stream_text after"
    by (simp add: p stream_text_append)
next
  assume run: "streamWithMultiStepTools w a = (Return files, a')"
  then obtain q s1 l s2 where
    rw: "rewriteQuery w (content (last (messages a))) (a\<lparr>allFiles := []\<rparr>) = (q, s1)"
    and lp: "agentic_loop w (content (last (messages a)))
           \<lparr>iteration = 0, currentSearchQuery = q, accumulatedKnowledge = []\<rparr> s1 = (Return l, s2)"
    and fin: "a' = finalAnswer w (content (last (messages a))) l s2"
    by (rule streamWithMultiStepTools_Return)
  from rewriteQuery_frame [OF rw] agentic_loop_frame [OF lp] have "messages s2 = messages a"
    by simp
  with fin show "messages a' = messages a \<or>
      (\<exists>answer. trim answer \<noteq> [] \<and>
         messages a' = messages a @ [\<lparr>role = ''assistant'', content = answer\<rparr>])"
    by (auto simp add: finalAnswer_eq Let_def)
qed

text \<open>A stream that fails between two fragments.\<close>

theorem synthesis_keeps_text_and_appends_one_turn_witness:
  "synthesize (broken_stream (loop_world ''fact'' (enough_at 1))) 0 ''q'' start_vars =
     [TextDelta ''par''] @ StreamError ''boom'' # [TextDelta ''tial''] \<and>
   trim (stream_text [TextDelta ''par'', StreamError ''boom'', TextDelta ''tial'']) \<noteq> [] \<and>
   sent (finalAnswer (broken_stream (loop_world ''fact'' (enough_at 1))) ''q'' start_vars demo_agent) =
     [TextDeltaEvent ''par'', ErrorEvent ''boom'', TextDeltaEvent ''tial''] \<and>
   messages (finalAnswer (broken_stream (loop_world ''fact'' (enough_at 1))) ''q'' start_vars demo_agent) =
     messages demo_agent @ [\<lparr>role = ''assistant'', content = ''partial''\<rparr>] \<and>
   fst (streamWithMultiStepTools (broken_stream (loop_world ''fact'' (enough_at 1))) demo_agent) =
     Return [] \<and>
   messages (snd (streamWithMultiStepTools (broken_stream (loop_world ''fact'' (enough_at 1)))
                    demo_agent)) =
     messages demo_agent @ [\<lparr>role = ''assistant'', content = ''partial''\<rparr>]"
proof -
  define W where "W = broken_stream (loop_world ''fact'' (enough_at 1))"
  define parts where "parts = [TextDelta ''par'', StreamError ''boom'', TextDelta ''tial'']"
  define s' where "s' = finalAnswer W ''q'' start_vars demo_agent"
  define a' where "a' = snd (streamWithMultiStepTools W demo_agent)"
  note ev = W_def parts_def s'_def a'_def loop_eval enough_at_def run_eval broken_stream_def
  have sy: "synthesize W (length (calls demo_agent)) ''q'' start_vars = parts"
    by (simp add: ev)
  have sy0: "synthesize W 0 ''q'' start_vars = [TextDelta ''par''] @ StreamError ''boom'' # [TextDelta ''tial'']"
    by (simp add: ev)
  have split: "parts = [TextDelta ''par''] @ StreamError ''boom'' # [TextDelta ''tial'']"
    by (simp add: parts_def)
  have t: "trim (stream_text parts) \<noteq> []"
    by (simp add: parts_def trim_def is_space_def)
  have run: "streamWithMultiStepTools W demo_agent = (Return [], a')"
    by (simp add: ev)
  have runf: "fst (streamWithMultiStepTools W demo_agent) = Return []"
    by (simp add: ev)
  have ms: "messages a' \<noteq> messages demo_agent"
    by (simp add: ev)
  from synthesis_keeps_text_and_appends_one_turn [of W "''q''" start_vars demo_agent s' parts
      demo_agent "[]" a'] sy t split run
  have 1: "messages s' = messages demo_agent @ [\<lparr>role = ''assistant'', content = stream_text parts\<rparr>]"
    and 2: "sent s' = sent demo_agent @ stream_events [TextDelta ''par''] @ ErrorEvent ''boom'' #
        stream_events [TextDelta ''tial'']"
    and 3: "messages a' = messages demo_agent \<or>
      (\<exists>answer. trim answer \<noteq> [] \<and>
         messages a' = messages demo_agent @ [\<lparr>role = ''assistant'', content = answer\<rparr>])"
    unfolding s'_def by blast+
  have 4: "messages a' = messages demo_agent @ [\<lparr>role = ''assistant'', content = ''partial''\<rparr>]"
    by (simp add: ev)
  have 5: "sent demo_agent = []" "stream_text parts = ''partial''"
    by (simp_all add: demo_agent_def parts_def)
  show ?thesis
    using sy0 t 1 2 4 runf unfolding 5 s'_def a'_def W_def parts_def by simp
qed

end
